theory Spec2Isabelle
  imports Main "HOL-Library.Multiset" "HOL-Library.Sublist"
begin

chapter \<open>The feed pipeline: parser, aggregator and builder\<close>

text \<open>
  A shallow embedding of \<open>rss-parser.ts\<close>, \<open>feed-aggregator.ts\<close> and \<open>rss-builder.ts\<close>. The
  regular expressions of the parser are read as functions on strings, the network as the
  outcome of each fetch, and the host's date parser as a parameter.
\<close>

section \<open>JavaScript values used by the feed pipeline\<close>

text \<open>
  A JavaScript number is modelled as an integer or \<open>NaN\<close>; this covers the time value of a
  \<open>Date\<close> (milliseconds since the epoch, \<open>NaN\<close> for an Invalid Date), item limits, image
  sizes and enclosure lengths. A \<open>Date\<close> object is represented by its time value. A string
  is a list of characters, each character one code unit below 256.
\<close>

datatype jsnum = Fin int | NaN

fun js_minus :: "jsnum \<Rightarrow> jsnum \<Rightarrow> jsnum" where
  "js_minus (Fin a) (Fin b) = Fin (a - b)"
| "js_minus _ _ = NaN"

fun truthy_num :: "jsnum \<Rightarrow> bool" where
  "truthy_num (Fin n) = (n \<noteq> 0)"
| "truthy_num NaN = False"

text \<open>Truthiness of a \<open>string | null | undefined\<close> value: only a non-empty string counts.\<close>

fun truthy :: "string option \<Rightarrow> bool" where
  "truthy None = False"
| "truthy (Some s) = (s \<noteq> [])"

text \<open>\<open>a || b\<close> on two nullable strings, \<open>a || 'literal'\<close>, and \<open>if (a) field = a\<close>.\<close>

definition js_or :: "string option \<Rightarrow> string option \<Rightarrow> string option" where
  "js_or a b = (if truthy a then a else b)"

definition or_str :: "string option \<Rightarrow> string \<Rightarrow> string" where
  "or_str a d = (case a of None \<Rightarrow> d | Some s \<Rightarrow> if s \<noteq> [] then s else d)"

definition if_truthy :: "string option \<Rightarrow> string option" where
  "if_truthy a = (if truthy a then a else None)"

section \<open>String primitives\<close>

text \<open>
  Canonicalisation of the \<open>i\<close> flag. Every pattern of the parser is ASCII, and without the
  \<open>u\<close> flag a non-ASCII character never canonicalises to an ASCII one, so folding the
  ASCII letters is all the flag does here.
\<close>

definition lower :: "char \<Rightarrow> char" where
  "lower c =
     (case map_of (zip ''ABCDEFGHIJKLMNOPQRSTUVWXYZ'' ''abcdefghijklmnopqrstuvwxyz'') c of
        Some l \<Rightarrow> l
      | None \<Rightarrow> c)"

fun ci_prefix :: "string \<Rightarrow> string \<Rightarrow> bool" where
  "ci_prefix [] s = True"
| "ci_prefix (p # ps) [] = False"
| "ci_prefix (p # ps) (c # cs) = (lower p = lower c \<and> ci_prefix ps cs)"

text \<open>
  A lazy \<^verbatim>\<open>[\s\S]*?\<close> followed by a literal stops at the first occurrence of the literal:
  \<open>find_ci pat s\<close> returns the text before that occurrence and the text after it.
\<close>

fun find_ci :: "string \<Rightarrow> string \<Rightarrow> (string \<times> string) option" where
  "find_ci pat [] = (if pat = [] then Some ([], []) else None)"
| "find_ci pat (c # cs) =
     (if ci_prefix pat (c # cs) then Some ([], drop (length pat) (c # cs))
      else map_option (\<lambda>(b, a). (c # b, a)) (find_ci pat cs))"

text \<open>\<open>String.prototype.includes\<close>: a case-sensitive substring test.\<close>

fun str_includes :: "string \<Rightarrow> string \<Rightarrow> bool" where
  "str_includes [] pat = (pat = [])"
| "str_includes (c # cs) pat = (prefix pat (c # cs) \<or> str_includes cs pat)"

text \<open>\<open>String.prototype.trim\<close>: the white space and line terminators below 256.\<close>

definition is_ws :: "char \<Rightarrow> bool" where
  "is_ws c = (c \<in> {CHR 0x09, CHR 0x0A, CHR 0x0B, CHR 0x0C, CHR 0x0D, CHR 0x20, CHR 0xA0})"

definition trim :: "string \<Rightarrow> string" where
  "trim s = rev (dropWhile is_ws (rev (dropWhile is_ws s)))"

text \<open>\<open>str.replace(/pat/g, rep)\<close> for a literal pattern: leftmost, non-overlapping.\<close>

fun replace_all :: "string \<Rightarrow> string \<Rightarrow> string \<Rightarrow> string" where
  "replace_all pat rep [] = []"
| "replace_all pat rep (c # cs) =
     (if prefix pat (c # cs) then rep @ replace_all pat rep (drop (length pat - 1) cs)
      else c # replace_all pat rep cs)"

text \<open>
  \<open>RegExp.prototype.exec\<close> without a sticky flag: the match is tried at every start
  position from the left, the first success wins. The argument \<open>m\<close> is the reading of one
  regular expression at a fixed start position.
\<close>

fun exec :: "(string \<Rightarrow> 'a option) \<Rightarrow> string \<Rightarrow> 'a option" where
  "exec m [] = m []"
| "exec m (c # cs) = (case m (c # cs) of Some r \<Rightarrow> Some r | None \<Rightarrow> exec m cs)"

text \<open>\<^verbatim>\<open>[^>]*>\<close>: the greedy class cannot cross a \<^verbatim>\<open>>\<close>, so it ends at the first one;
  \<^verbatim>\<open>[^:]*:\<close> likewise.\<close>

definition skip_to_gt :: "string \<Rightarrow> string option" where
  "skip_to_gt s = (case dropWhile (\<lambda>c. c \<noteq> CHR ''>'') s of [] \<Rightarrow> None | _ # r \<Rightarrow> Some r)"

definition skip_to_colon :: "string \<Rightarrow> string option" where
  "skip_to_colon s = (case dropWhile (\<lambda>c. c \<noteq> CHR '':'') s of [] \<Rightarrow> None | _ # r \<Rightarrow> Some r)"

section \<open>RSSParser\<close>

subsection \<open>The regular expressions, read at one start position\<close>

text \<open>\<^verbatim>\<open>/<item>([\s\S]*?)<\/item>/gi\<close> and \<^verbatim>\<open>/<entry>([\s\S]*?)<\/entry>/gi\<close>: the captured span and
  the text after the match.\<close>

definition block_at :: "string \<Rightarrow> string \<Rightarrow> string \<Rightarrow> (string \<times> string) option" where
  "block_at opn cls s =
     (if ci_prefix opn s then find_ci cls (drop (length opn) s) else None)"

text \<open>\<^verbatim>\<open><TAG[^>]*>([\s\S]*?)<\/TAG>\<close> with flag \<open>i\<close>.\<close>

definition tag_at :: "string \<Rightarrow> string \<Rightarrow> string option" where
  "tag_at tagName s =
     (if ci_prefix (CHR ''<'' # tagName) s then
        (case skip_to_gt (drop (Suc (length tagName)) s) of
           None \<Rightarrow> None
         | Some r \<Rightarrow> map_option fst (find_ci (''</'' @ tagName @ ''>'') r))
      else None)"

text \<open>\<^verbatim>\<open><[^:]*:TAG[^>]*>([\s\S]*?)<\/[^:]*:TAG>\<close> with flag \<open>i\<close>. The closing part is tried at
  every end of the lazy capture, shortest first.\<close>

definition ns_close_at :: "string \<Rightarrow> string \<Rightarrow> bool" where
  "ns_close_at tagName s =
     (ci_prefix ''</'' s \<and>
      (case skip_to_colon (drop 2 s) of
         None \<Rightarrow> False
       | Some r \<Rightarrow> ci_prefix (tagName @ ''>'') r))"

fun ns_lazy :: "string \<Rightarrow> string \<Rightarrow> string option" where
  "ns_lazy tagName [] = (if ns_close_at tagName [] then Some [] else None)"
| "ns_lazy tagName (c # cs) =
     (if ns_close_at tagName (c # cs) then Some []
      else map_option ((#) c) (ns_lazy tagName cs))"

definition ns_tag_at :: "string \<Rightarrow> string \<Rightarrow> string option" where
  "ns_tag_at tagName s =
     (case s of
        [] \<Rightarrow> None
      | c # r0 \<Rightarrow>
          if c \<noteq> CHR ''<'' then None
          else (case skip_to_colon r0 of
                  None \<Rightarrow> None
                | Some r1 \<Rightarrow>
                    if ci_prefix tagName r1 then
                      (case skip_to_gt (drop (length tagName) r1) of
                         None \<Rightarrow> None
                       | Some r2 \<Rightarrow> ns_lazy tagName r2)
                    else None))"

text \<open>\<^verbatim>\<open><TAG[^>]*><!\[CDATA\[([\s\S]*?)\]\]><\/TAG>\<close> with flag \<open>i\<close>.\<close>

definition cdata_at :: "string \<Rightarrow> string \<Rightarrow> string option" where
  "cdata_at tagName s =
     (if ci_prefix (CHR ''<'' # tagName) s then
        (case skip_to_gt (drop (Suc (length tagName)) s) of
           None \<Rightarrow> None
         | Some r \<Rightarrow>
             if ci_prefix ''<![CDATA['' r then
               map_option fst (find_ci ('']]></'' @ tagName @ ''>'') (drop 9 r))
             else None)
      else None)"

text \<open>\<^verbatim>\<open>/<link[^>]*href=["']([^"']+)["']/i\<close>. The greedy \<^verbatim>\<open>[^>]*\<close> gives characters back one at
  a time, so the last \<open>href=\<close> inside the run that is followed by a quoted, non-empty,
  terminated value is the one captured.\<close>

definition is_quote :: "char \<Rightarrow> bool" where
  "is_quote c = (c = CHR 0x22 \<or> c = CHR 0x27)"

definition href_at :: "string \<Rightarrow> string option" where
  "href_at s =
     (if ci_prefix ''href='' s then
        (case drop 5 s of
           [] \<Rightarrow> None
         | q # r \<Rightarrow>
             if is_quote q then
               (let v = takeWhile (\<lambda>c. \<not> is_quote c) r;
                    r' = dropWhile (\<lambda>c. \<not> is_quote c) r
                in if v \<noteq> [] \<and> r' \<noteq> [] then Some v else None)
             else None)
      else None)"

fun first_some :: "'a option list \<Rightarrow> 'a option" where
  "first_some [] = None"
| "first_some (None # xs) = first_some xs"
| "first_some (Some v # xs) = Some v"

definition link_at :: "string \<Rightarrow> string option" where
  "link_at s =
     (if ci_prefix ''<link'' s then
        (let r = drop 5 s;
             n = length (takeWhile (\<lambda>c. c \<noteq> CHR ''>'') r)
         in first_some (map (\<lambda>p. href_at (drop p r)) (rev [0 ..< Suc n])))
      else None)"

subsection \<open>Extraction primitives\<close>

definition decodeHTML :: "string \<Rightarrow> string" where
  "decodeHTML str =
     replace_all ''&apos;'' [CHR 0x27]
       (replace_all ''&quot;'' [CHR 0x22]
          (replace_all ''&gt;'' ''>''
             (replace_all ''&lt;'' ''<''
                (replace_all ''&amp;'' ''&'' str))))"

definition extractTag :: "string \<Rightarrow> string \<Rightarrow> string option" where
  "extractTag xml tagName =
     (let match = exec (tag_at tagName) xml;
          match' = (if match = None \<and> CHR '':'' \<notin> set tagName
                    then exec (ns_tag_at tagName) xml else match)
      in case match' of
           Some g \<Rightarrow> Some (decodeHTML (trim g))
         | None \<Rightarrow> None)"

definition extractCDATA :: "string \<Rightarrow> string \<Rightarrow> string option" where
  "extractCDATA xml tagName =
     (case exec (cdata_at tagName) xml of
        Some g \<Rightarrow> Some (trim g)
      | None \<Rightarrow> None)"

subsection \<open>Feed items\<close>

record FeedSource =
  src_url :: string
  src_title :: string

record FeedEnclosure =
  enc_url :: string
  enc_length :: jsnum
  enc_type :: string

record FeedItem =
  title :: string
  link :: string
  description :: string
  author :: "string option"
  category :: "string option"
  comments :: "string option"
  enclosure :: "FeedEnclosure option"
  guid :: "string option"
  pubDate :: "jsnum option"
  source :: "FeedSource option"

text \<open>
  \<open>new Date(text)\<close> is the host's date parser; it is a parameter \<open>pd\<close> of the parser, giving
  the time value of the resulting \<open>Date\<close> (\<open>NaN\<close> for text it cannot parse).
\<close>

definition attach_source :: "string \<Rightarrow> string option \<Rightarrow> FeedSource option" where
  "attach_source sourceUrl sourceTitle =
     (case sourceTitle of
        None \<Rightarrow> None
      | Some t \<Rightarrow> if t \<noteq> [] then Some \<lparr>src_url = sourceUrl, src_title = t\<rparr> else None)"

definition parse_date :: "(string \<Rightarrow> jsnum) \<Rightarrow> string option \<Rightarrow> jsnum option" where
  "parse_date pd str = (case str of None \<Rightarrow> None | Some s \<Rightarrow> if s \<noteq> [] then Some (pd s) else None)"

definition rss_item :: "(string \<Rightarrow> jsnum) \<Rightarrow> string \<Rightarrow> string option \<Rightarrow> string \<Rightarrow> FeedItem" where
  "rss_item pd sourceUrl sourceTitle itemXML =
     \<lparr> title = or_str (extractTag itemXML ''title'') ''Untitled'',
       link = or_str (extractTag itemXML ''link'') [],
       description =
         or_str (js_or (extractCDATA itemXML ''description'') (extractTag itemXML ''description'')) [],
       author = if_truthy (js_or (extractTag itemXML ''author'') (extractTag itemXML ''dc:creator'')),
       category = if_truthy (extractTag itemXML ''category''),
       comments = None,
       enclosure = None,
       guid = if_truthy (extractTag itemXML ''guid''),
       pubDate = parse_date pd (js_or (extractTag itemXML ''pubDate'') (extractTag itemXML ''dc:date'')),
       source = attach_source sourceUrl sourceTitle \<rparr>"

definition atom_author :: "string \<Rightarrow> string option" where
  "atom_author entryXML =
     (case extractTag entryXML ''author'' of
        None \<Rightarrow> None
      | Some a \<Rightarrow> if a \<noteq> [] then if_truthy (extractTag a ''name'') else None)"

definition atom_item :: "(string \<Rightarrow> jsnum) \<Rightarrow> string \<Rightarrow> string option \<Rightarrow> string \<Rightarrow> FeedItem" where
  "atom_item pd sourceUrl sourceTitle entryXML =
     \<lparr> title = or_str (extractTag entryXML ''title'') ''Untitled'',
       link = (case exec link_at entryXML of Some l \<Rightarrow> l | None \<Rightarrow> []),
       description =
         or_str (js_or (js_or (js_or (extractCDATA entryXML ''content'') (extractTag entryXML ''content''))
                              (extractCDATA entryXML ''summary''))
                       (extractTag entryXML ''summary'')) [],
       author = atom_author entryXML,
       category = if_truthy (extractTag entryXML ''category''),
       comments = None,
       enclosure = None,
       guid = if_truthy (extractTag entryXML ''id''),
       pubDate = parse_date pd (js_or (extractTag entryXML ''published'') (extractTag entryXML ''updated'')),
       source = attach_source sourceUrl sourceTitle \<rparr>"

subsection \<open>The item loops\<close>

lemma find_ci_length: "find_ci pat s = Some (b, a) \<Longrightarrow> length a \<le> length s"
  by (induction s arbitrary: b) (auto split: if_splits)

lemma block_at_length:
  "block_at opn cls s = Some (g, r) \<Longrightarrow> opn \<noteq> [] \<Longrightarrow> length r < length s"
proof -
  assume m: "block_at opn cls s = Some (g, r)" and ne: "opn \<noteq> []"
  from m have p: "ci_prefix opn s" and f: "find_ci cls (drop (length opn) s) = Some (g, r)"
    by (auto simp: block_at_def split: if_splits)
  from p ne have "s \<noteq> []" by (cases opn; cases s) auto
  with ne have "length (drop (length opn) s) < length s" by simp
  with find_ci_length [OF f] show ?thesis by simp
qed

lemma exec_block_at_length:
  "exec (block_at opn cls) s = Some (g, r) \<Longrightarrow> opn \<noteq> [] \<Longrightarrow> length r < length s"
proof (induction s)
  case Nil
  then show ?case by (auto dest: block_at_length)
next
  case (Cons c cs)
  then show ?case by (fastforce split: option.splits dest: block_at_length)
qed

text \<open>\<open>for (const match of xmlContent.matchAll(itemRegex))\<close>: after a match the search resumes
  where the match ended.\<close>

function item_spans :: "string \<Rightarrow> string list" where
  "item_spans s =
     (case exec (block_at ''<item>'' ''</item>'') s of
        None \<Rightarrow> []
      | Some (g, r) \<Rightarrow> g # item_spans r)"
  by pat_completeness auto
termination
  by (relation "measure length") (auto dest: exec_block_at_length)

function entry_spans :: "string \<Rightarrow> string list" where
  "entry_spans s =
     (case exec (block_at ''<entry>'' ''</entry>'') s of
        None \<Rightarrow> []
      | Some (g, r) \<Rightarrow> g # entry_spans r)"
  by pat_completeness auto
termination
  by (relation "measure length") (auto dest: exec_block_at_length)

declare item_spans.simps [simp del] entry_spans.simps [simp del]

definition parseRSS :: "(string \<Rightarrow> jsnum) \<Rightarrow> string \<Rightarrow> string \<Rightarrow> string option \<Rightarrow> FeedItem list" where
  "parseRSS pd xmlContent sourceUrl sourceTitle =
     map (rss_item pd sourceUrl sourceTitle) (item_spans xmlContent)"

definition parseAtom :: "(string \<Rightarrow> jsnum) \<Rightarrow> string \<Rightarrow> string \<Rightarrow> string option \<Rightarrow> FeedItem list" where
  "parseAtom pd xmlContent sourceUrl sourceTitle =
     map (atom_item pd sourceUrl sourceTitle) (entry_spans xmlContent)"

definition atom_xmlns :: string where
  "atom_xmlns = ''xmlns='' @ [CHR 0x22] @ ''http://www.w3.org/2005/Atom'' @ [CHR 0x22]"

definition isAtom :: "string \<Rightarrow> bool" where
  "isAtom xmlContent = (str_includes xmlContent ''<feed'' \<and> str_includes xmlContent atom_xmlns)"

definition parse :: "(string \<Rightarrow> jsnum) \<Rightarrow> string \<Rightarrow> string \<Rightarrow> string option \<Rightarrow> FeedItem list" where
  "parse pd xmlContent sourceUrl sourceTitle =
     (if isAtom xmlContent then parseAtom pd xmlContent sourceUrl sourceTitle
      else parseRSS pd xmlContent sourceUrl sourceTitle)"

section \<open>FeedAggregator\<close>

record SourceFeed =
  sf_url :: string
  sf_title :: string

text \<open>
  What the network gives back for one source: the \<open>fetch\<close> promise rejects, or it resolves to
  a response with a status and a body whose reading may itself fail.
\<close>

datatype fetch_outcome = NetworkError | Response nat "string option"

datatype error = FetchRejected | HttpError nat | BodyRejected

definition response_ok :: "nat \<Rightarrow> bool" where
  "response_ok status = (200 \<le> status \<and> status \<le> 299)"

definition fetchFeed :: "(string \<Rightarrow> jsnum) \<Rightarrow> fetch_outcome \<Rightarrow> string \<Rightarrow> string \<Rightarrow> error + FeedItem list" where
  "fetchFeed pd outcome u t =
     (case outcome of
        NetworkError \<Rightarrow> Inl FetchRejected
      | Response status body \<Rightarrow>
          if \<not> response_ok status then Inl (HttpError status)
          else (case body of
                  None \<Rightarrow> Inl BodyRejected
                | Some xmlContent \<Rightarrow> Inr (parse pd xmlContent u (Some t))))"

text \<open>\<open>this.fetchFeed(...).catch(() => [])\<close>.\<close>

definition fetch_or_empty :: "(string \<Rightarrow> jsnum) \<Rightarrow> SourceFeed \<times> fetch_outcome \<Rightarrow> FeedItem list" where
  "fetch_or_empty pd so =
     (case fetchFeed pd (snd so) (sf_url (fst so)) (sf_title (fst so)) of
        Inl e \<Rightarrow> []
      | Inr items \<Rightarrow> items)"

text \<open>
  \<open>Array.prototype.sort\<close> with a comparator: a \<open>NaN\<close> result counts as \<open>+0\<close>, and the sort is
  stable. It is modelled as the stable insertion sort; for a consistent comparator every
  stable sort returns the same list. A comparator that returns \<open>NaN\<close> is not consistent: the
  order is then left to the engine, and the model gives one such order.
\<close>

definition sort_compare :: "('a \<Rightarrow> 'a \<Rightarrow> jsnum) \<Rightarrow> 'a \<Rightarrow> 'a \<Rightarrow> int" where
  "sort_compare cmp x y = (case cmp x y of NaN \<Rightarrow> 0 | Fin v \<Rightarrow> v)"

fun insert_by :: "('a \<Rightarrow> 'a \<Rightarrow> jsnum) \<Rightarrow> 'a \<Rightarrow> 'a list \<Rightarrow> 'a list" where
  "insert_by cmp x [] = [x]"
| "insert_by cmp x (y # ys) =
     (if sort_compare cmp x y > 0 then y # insert_by cmp x ys else x # y # ys)"

definition array_sort :: "('a \<Rightarrow> 'a \<Rightarrow> jsnum) \<Rightarrow> 'a list \<Rightarrow> 'a list" where
  "array_sort cmp xs = foldr (insert_by cmp) xs []"

definition date_key :: "FeedItem \<Rightarrow> jsnum" where
  "date_key a = (case pubDate a of None \<Rightarrow> Fin 0 | Some t \<Rightarrow> t)"

definition by_date :: "FeedItem \<Rightarrow> FeedItem \<Rightarrow> jsnum" where
  "by_date a b = js_minus (date_key b) (date_key a)"

definition limit :: "jsnum option \<Rightarrow> 'a list \<Rightarrow> 'a list" where
  "limit maxItems xs =
     (case maxItems of
        Some (Fin k) \<Rightarrow> if k \<noteq> 0 \<and> k > 0 then take (nat k) xs else xs
      | _ \<Rightarrow> xs)"

definition aggregate :: "(string \<Rightarrow> jsnum) \<Rightarrow> (SourceFeed \<times> fetch_outcome) list \<Rightarrow> jsnum option \<Rightarrow> FeedItem list" where
  "aggregate pd sources maxItems =
     (let results = map (fetch_or_empty pd) sources;
          allItems = concat results
      in limit maxItems (array_sort by_date allItems))"

section \<open>RSSFeedBuilder\<close>

record FeedImage =
  img_url :: string
  img_title :: string
  img_link :: string
  img_width :: "jsnum option"
  img_height :: "jsnum option"
  img_description :: "string option"

record FeedConfig =
  cfg_title :: string
  cfg_description :: string
  cfg_link :: string
  cfg_language :: "string option"
  cfg_copyright :: "string option"
  cfg_managingEditor :: "string option"
  cfg_webMaster :: "string option"
  cfg_pubDate :: "jsnum option"
  cfg_lastBuildDate :: "jsnum option"
  cfg_category :: "string option"
  cfg_generator :: "string option"
  cfg_docs :: "string option"
  cfg_ttl :: "jsnum option"
  cfg_image :: "FeedImage option"

subsection \<open>Text escaping\<close>

definition escapeXML :: "string \<Rightarrow> string" where
  "escapeXML str =
     replace_all [CHR 0x27] ''&apos;''
       (replace_all [CHR 0x22] ''&quot;''
          (replace_all ''>'' ''&gt;''
             (replace_all ''<'' ''&lt;''
                (replace_all ''&'' ''&amp;'' str))))"

subsection \<open>Numbers and dates as text\<close>

text \<open>Number to string, for the integers whose decimal form JavaScript prints in full.\<close>

function nat_digits :: "nat \<Rightarrow> string" where
  "nat_digits n =
     (if n < 10 then [char_of (48 + n)]
      else nat_digits (n div 10) @ [char_of (48 + n mod 10)])"
  by pat_completeness auto
termination
  by (relation "measure id") auto

declare nat_digits.simps [simp del]

fun num_to_string :: "jsnum \<Rightarrow> string" where
  "num_to_string NaN = ''NaN''"
| "num_to_string (Fin i) = (if i < 0 then CHR ''-'' # nat_digits (nat (- i)) else nat_digits (nat i))"

definition padStart2 :: "string \<Rightarrow> string" where
  "padStart2 s = replicate (2 - length s) CHR ''0'' @ s"

text \<open>
  The UTC fields of a time value, after the ECMAScript definitions: \<open>Day(t) = floor(t / msPerDay)\<close>,
  \<open>WeekDay(t) = (Day(t) + 4) mod 7\<close>, and the proleptic Gregorian calendar for year, month
  and day of month. Every field of an Invalid Date is \<open>NaN\<close>.
\<close>

definition msPerDay :: int where
  "msPerDay = 86400000"

definition civil :: "int \<Rightarrow> int \<times> int \<times> int" where
  "civil days =
     (let z = days + 719468;
          era = z div 146097;
          doe = z - era * 146097;
          yoe = (doe - doe div 1460 + doe div 36524 - doe div 146096) div 365;
          doy = doe - (365 * yoe + yoe div 4 - yoe div 100);
          mp = (5 * doy + 2) div 153;
          d = doy - (153 * mp + 2) div 5 + 1;
          m = (if mp < 10 then mp + 2 else mp - 10);
          y = yoe + era * 400 + (if m \<le> 1 then 1 else 0)
      in (y, m, d))"

fun getUTCDay :: "jsnum \<Rightarrow> jsnum" where
  "getUTCDay NaN = NaN"
| "getUTCDay (Fin t) = Fin ((t div msPerDay + 4) mod 7)"

fun getUTCFullYear :: "jsnum \<Rightarrow> jsnum" where
  "getUTCFullYear NaN = NaN"
| "getUTCFullYear (Fin t) = Fin (fst (civil (t div msPerDay)))"

fun getUTCMonth :: "jsnum \<Rightarrow> jsnum" where
  "getUTCMonth NaN = NaN"
| "getUTCMonth (Fin t) = Fin (fst (snd (civil (t div msPerDay))))"

fun getUTCDate :: "jsnum \<Rightarrow> jsnum" where
  "getUTCDate NaN = NaN"
| "getUTCDate (Fin t) = Fin (snd (snd (civil (t div msPerDay))))"

fun getUTCHours :: "jsnum \<Rightarrow> jsnum" where
  "getUTCHours NaN = NaN"
| "getUTCHours (Fin t) = Fin ((t div 3600000) mod 24)"

fun getUTCMinutes :: "jsnum \<Rightarrow> jsnum" where
  "getUTCMinutes NaN = NaN"
| "getUTCMinutes (Fin t) = Fin ((t div 60000) mod 60)"

fun getUTCSeconds :: "jsnum \<Rightarrow> jsnum" where
  "getUTCSeconds NaN = NaN"
| "getUTCSeconds (Fin t) = Fin ((t div 1000) mod 60)"

text \<open>\<open>`${names[i]}`\<close>: an index that is \<open>NaN\<close> or out of range reads \<open>undefined\<close>.\<close>

fun name_at :: "string list \<Rightarrow> jsnum \<Rightarrow> string" where
  "name_at names NaN = ''undefined''"
| "name_at names (Fin i) = (if 0 \<le> i \<and> i < int (length names) then names ! nat i else ''undefined'')"

definition formatDate :: "jsnum \<Rightarrow> string" where
  "formatDate date =
     (let days = [''Sun'', ''Mon'', ''Tue'', ''Wed'', ''Thu'', ''Fri'', ''Sat''];
          months = [''Jan'', ''Feb'', ''Mar'', ''Apr'', ''May'', ''Jun'',
                    ''Jul'', ''Aug'', ''Sep'', ''Oct'', ''Nov'', ''Dec''];
          day = name_at days (getUTCDay date);
          dayNum = padStart2 (num_to_string (getUTCDate date));
          month = name_at months (getUTCMonth date);
          year = num_to_string (getUTCFullYear date);
          hours = padStart2 (num_to_string (getUTCHours date));
          minutes = padStart2 (num_to_string (getUTCMinutes date));
          seconds = padStart2 (num_to_string (getUTCSeconds date))
      in day @ '', '' @ dayNum @ '' '' @ month @ '' '' @ year @ '' '' @
         hours @ '':'' @ minutes @ '':'' @ seconds @ '' GMT'')"

subsection \<open>Serialisation\<close>

text \<open>\<open>xml.join('\n')\<close>.\<close>

fun join_lines :: "string list \<Rightarrow> string" where
  "join_lines [] = []"
| "join_lines [l] = l"
| "join_lines (l # ls) = l @ CHR 0x0A # join_lines ls"

text \<open>\<open>if (v) xml.push(`<name>${this.escapeXML(v)}</name>`)\<close> for an optional string \<open>v\<close>.\<close>

definition opt_elem :: "string \<Rightarrow> string option \<Rightarrow> string list" where
  "opt_elem name v =
     (case v of
        None \<Rightarrow> []
      | Some s \<Rightarrow> if s \<noteq> [] then [''<'' @ name @ ''>'' @ escapeXML s @ ''</'' @ name @ ''>''] else [])"

text \<open>The same for an optional date (a \<open>Date\<close> object is always truthy) and an optional number
  (\<open>0\<close> and \<open>NaN\<close> are falsy).\<close>

definition opt_date :: "string \<Rightarrow> jsnum option \<Rightarrow> string list" where
  "opt_date name v =
     (case v of
        None \<Rightarrow> []
      | Some d \<Rightarrow> [''<'' @ name @ ''>'' @ formatDate d @ ''</'' @ name @ ''>''])"

definition opt_num :: "string \<Rightarrow> jsnum option \<Rightarrow> string list" where
  "opt_num name v =
     (case v of
        None \<Rightarrow> []
      | Some n \<Rightarrow> if truthy_num n then [''<'' @ name @ ''>'' @ num_to_string n @ ''</'' @ name @ ''>''] else [])"

definition guid_line :: "FeedItem \<Rightarrow> string" where
  "guid_line item =
     (let g = (case guid item of None \<Rightarrow> link item | Some s \<Rightarrow> if s \<noteq> [] then s else link item);
          isPermaLink = (if truthy (guid item) then ''false'' else ''true'')
      in ''<guid isPermaLink='' @ [CHR 0x22] @ isPermaLink @ [CHR 0x22] @ ''>'' @ escapeXML g @ ''</guid>'')"

definition enclosure_lines :: "FeedEnclosure option \<Rightarrow> string list" where
  "enclosure_lines e =
     (case e of
        None \<Rightarrow> []
      | Some enc \<Rightarrow>
          [''<enclosure url='' @ [CHR 0x22] @ escapeXML (enc_url enc) @ [CHR 0x22] @ '' '' @
           ''length='' @ [CHR 0x22] @ num_to_string (enc_length enc) @ [CHR 0x22] @ '' '' @
           ''type='' @ [CHR 0x22] @ escapeXML (enc_type enc) @ [CHR 0x22] @ '' />''])"

definition source_lines :: "FeedSource option \<Rightarrow> string list" where
  "source_lines so =
     (case so of
        None \<Rightarrow> []
      | Some src \<Rightarrow>
          [''<source url='' @ [CHR 0x22] @ escapeXML (src_url src) @ [CHR 0x22] @ ''>'' @
           escapeXML (src_title src) @ ''</source>''])"

definition buildItem_lines :: "FeedItem \<Rightarrow> string list" where
  "buildItem_lines item =
     [''<item>'',
      ''<title>'' @ escapeXML (title item) @ ''</title>'',
      ''<link>'' @ escapeXML (link item) @ ''</link>'',
      ''<description><![CDATA['' @ description item @ '']]></description>''] @
     opt_elem ''author'' (author item) @
     opt_elem ''category'' (category item) @
     opt_elem ''comments'' (comments item) @
     enclosure_lines (enclosure item) @
     [guid_line item] @
     opt_date ''pubDate'' (pubDate item) @
     source_lines (source item) @
     [''</item>'']"

definition buildItem :: "FeedItem \<Rightarrow> string" where
  "buildItem item = join_lines (buildItem_lines item)"

definition image_lines :: "FeedImage option \<Rightarrow> string list" where
  "image_lines im =
     (case im of
        None \<Rightarrow> []
      | Some img \<Rightarrow>
          [''<image>'',
           ''<url>'' @ escapeXML (img_url img) @ ''</url>'',
           ''<title>'' @ escapeXML (img_title img) @ ''</title>'',
           ''<link>'' @ escapeXML (img_link img) @ ''</link>''] @
          opt_num ''width'' (img_width img) @
          opt_num ''height'' (img_height img) @
          opt_elem ''description'' (img_description img) @
          [''</image>''])"

definition channel_lines :: "FeedConfig \<Rightarrow> string list" where
  "channel_lines config =
     [''<?xml version='' @ [CHR 0x22] @ ''1.0'' @ [CHR 0x22] @ '' encoding='' @ [CHR 0x22] @ ''UTF-8'' @ [CHR 0x22] @ ''?>'',
      ''<rss version='' @ [CHR 0x22] @ ''2.0'' @ [CHR 0x22] @
        '' xmlns:atom='' @ [CHR 0x22] @ ''http://www.w3.org/2005/Atom'' @ [CHR 0x22] @
        '' xmlns:content='' @ [CHR 0x22] @ ''http://purl.org/rss/1.0/modules/content/'' @ [CHR 0x22] @ ''>'',
      ''<channel>'',
      ''<title>'' @ escapeXML (cfg_title config) @ ''</title>'',
      ''<link>'' @ escapeXML (cfg_link config) @ ''</link>'',
      ''<description>'' @ escapeXML (cfg_description config) @ ''</description>''] @
     opt_elem ''language'' (cfg_language config) @
     opt_elem ''copyright'' (cfg_copyright config) @
     opt_elem ''managingEditor'' (cfg_managingEditor config) @
     opt_elem ''webMaster'' (cfg_webMaster config) @
     opt_date ''pubDate'' (cfg_pubDate config) @
     opt_date ''lastBuildDate'' (cfg_lastBuildDate config) @
     opt_elem ''category'' (cfg_category config) @
     [''<generator>'' @
        escapeXML (or_str (cfg_generator config) ''RSS Feed Generator for Cloudflare Workers'') @
      ''</generator>''] @
     opt_elem ''docs'' (cfg_docs config) @
     opt_num ''ttl'' (cfg_ttl config) @
     image_lines (cfg_image config) @
     [''<atom:link href='' @ [CHR 0x22] @ escapeXML (cfg_link config) @ ''/rss'' @ [CHR 0x22] @
      '' rel='' @ [CHR 0x22] @ ''self'' @ [CHR 0x22] @
      '' type='' @ [CHR 0x22] @ ''application/rss+xml'' @ [CHR 0x22] @ '' />'']"

definition build :: "FeedConfig \<Rightarrow> FeedItem list \<Rightarrow> string" where
  "build config items =
     join_lines (channel_lines config @ map buildItem items @ [''</channel>'', ''</rss>''])"

section \<open>Notions used to state the properties\<close>

text \<open>The sort key of an item whose date is valid or absent: its time value, \<open>0\<close> when it has
  no date. An item has a valid date when its \<open>pubDate\<close> is not an Invalid Date.\<close>

definition time_of :: "FeedItem \<Rightarrow> int" where
  "time_of a = (case pubDate a of None \<Rightarrow> 0 | Some NaN \<Rightarrow> 0 | Some (Fin t) \<Rightarrow> t)"

definition valid_date :: "FeedItem \<Rightarrow> bool" where
  "valid_date a = (pubDate a \<noteq> Some NaN)"

text \<open>The concatenated item lists of all sources, before sorting, and the fetches that end
  with a body to parse.\<close>

definition fetched :: "(string \<Rightarrow> jsnum) \<Rightarrow> (SourceFeed \<times> fetch_outcome) list \<Rightarrow> FeedItem list" where
  "fetched pd sources = concat (map (fetch_or_empty pd) sources)"

definition succeeded :: "fetch_outcome \<Rightarrow> bool" where
  "succeeded outcome =
     (case outcome of
        NetworkError \<Rightarrow> False
      | Response status body \<Rightarrow> response_ok status \<and> body \<noteq> None)"

text \<open>A line of an item that opens a \<open>guid\<close> element.\<close>

definition is_guid_element :: "string \<Rightarrow> bool" where
  "is_guid_element line = prefix ''<guid'' line"

text \<open>An item with the three mandatory fields only; a host date parser and a source, used to
  run the pipeline on concrete feeds.\<close>

definition plain_item :: "string \<Rightarrow> string \<Rightarrow> string \<Rightarrow> FeedItem" where
  "plain_item t l d =
     \<lparr> title = t, link = l, description = d, author = None, category = None, comments = None,
       enclosure = None, guid = None, pubDate = None, source = None \<rparr>"

definition sample_pd :: "string \<Rightarrow> jsnum" where
  "sample_pd s =
     (if s = ''Thu, 01 Jan 1970 00:00:01 GMT'' then Fin 1000
      else if s = ''Thu, 01 Jan 1970 00:00:02 GMT'' then Fin 2000
      else if s = ''Wed, 31 Dec 1969 23:59:59 GMT'' then Fin (- 1000)
      else NaN)"

definition sample_source :: "nat \<Rightarrow> string \<Rightarrow> SourceFeed \<times> fetch_outcome" where
  "sample_source status body = (\<lparr>sf_url = ''u'', sf_title = ''t''\<rparr>, Response status (Some body))"

text \<open>The title and date of an item, to display an order of items.\<close>

definition dated :: "FeedItem \<Rightarrow> string \<times> jsnum option" where
  "dated a = (title a, pubDate a)"

text \<open>The three fields the round trip is about.\<close>

definition fields :: "FeedItem \<Rightarrow> string \<times> string \<times> string" where
  "fields item = (title item, link item, description item)"

text \<open>
  Text that survives escape-on-build and decode-on-parse: no white space at either end (the
  parser trims) and none of the four entity texts that \<open>decodeHTML\<close> would decode a second
  time.
\<close>

definition plain_text :: "string \<Rightarrow> bool" where
  "plain_text t =
     (trim t = t \<and> \<not> str_includes t ''&lt;'' \<and> \<not> str_includes t ''&gt;'' \<and>
      \<not> str_includes t ''&quot;'' \<and> \<not> str_includes t ''&apos;'')"

text \<open>
  A description that survives the CDATA section: not empty, no white space at either end,
  no CDATA terminator, and neither a closing \<open>item\<close> tag nor the text \<open><feed\<close> (in any
  letter case) that would mislead the item scan or the dialect test.
\<close>

definition cdata_text :: "string \<Rightarrow> bool" where
  "cdata_text d =
     (d \<noteq> [] \<and> trim d = d \<and> \<not> str_includes d '']]>'' \<and>
      find_ci ''</item>'' d = None \<and> find_ci ''<feed'' d = None)"

definition round_trip_item :: "FeedItem \<Rightarrow> bool" where
  "round_trip_item item =
     (title item \<noteq> [] \<and> plain_text (title item) \<and> plain_text (link item) \<and>
      cdata_text (description item))"

definition sample_config :: FeedConfig where
  "sample_config =
     \<lparr> cfg_title = ''T'', cfg_description = ''D'', cfg_link = ''http://x'',
       cfg_language = None, cfg_copyright = None, cfg_managingEditor = None,
       cfg_webMaster = None, cfg_pubDate = None, cfg_lastBuildDate = None,
       cfg_category = None, cfg_generator = None, cfg_docs = None, cfg_ttl = None,
       cfg_image = None \<rparr>"

text \<open>The entity of a character, and escaping restricted to a set of characters: the stages
  that \<open>decodeHTML\<close> undoes one after the other.\<close>

definition entity :: "char \<Rightarrow> string" where
  "entity c =
     (if c = CHR ''&'' then ''&amp;''
      else if c = CHR ''<'' then ''&lt;''
      else if c = CHR ''>'' then ''&gt;''
      else if c = CHR 0x22 then ''&quot;''
      else if c = CHR 0x27 then ''&apos;''
      else [c])"

definition escs :: "char set \<Rightarrow> char \<Rightarrow> string" where
  "escs S c = (if c \<in> S then entity c else [c])"

definition special :: "char set" where
  "special = {CHR ''<'', CHR ''>'', CHR 0x22, CHR 0x27}"

text \<open>The lines of a built item between its \<open><item>\<close> and \<open></item>\<close> lines, and the text the
  item scan captures for it.\<close>

definition rest_lines :: "FeedItem \<Rightarrow> string list" where
  "rest_lines item =
     opt_elem ''author'' (author item) @
     opt_elem ''category'' (category item) @
     opt_elem ''comments'' (comments item) @
     enclosure_lines (enclosure item) @
     [guid_line item] @
     opt_date ''pubDate'' (pubDate item) @
     source_lines (source item)"

definition mid_lines :: "FeedItem \<Rightarrow> string list" where
  "mid_lines item =
     [''<title>'' @ escapeXML (title item) @ ''</title>'',
      ''<link>'' @ escapeXML (link item) @ ''</link>'',
      ''<description><![CDATA['' @ description item @ '']]></description>''] @
     rest_lines item"

definition item_inner :: "FeedItem \<Rightarrow> string" where
  "item_inner item = CHR 0x0A # join_lines (mid_lines item) @ [CHR 0x0A]"

definition guid_text :: "string \<Rightarrow> string \<Rightarrow> string" where
  "guid_text p x =
     ''<guid isPermaLink='' @ [CHR 0x22] @ p @ [CHR 0x22] @ ''>'' @ escapeXML x @ ''</guid>''"

text \<open>A line in which no \<open>item\<close> tag and no \<open><feed\<close> occurs.\<close>

definition calm :: "string \<Rightarrow> bool" where
  "calm l = (find_ci ''<item>'' l = None \<and> find_ci ''</item>'' l = None \<and> find_ci ''<feed'' l = None)"

text \<open>The number of positions of a text at which a pattern occurs, and an item whose
  description does not contain the text \<open><guid\<close>.\<close>

fun count_sub :: "string \<Rightarrow> string \<Rightarrow> nat" where
  "count_sub pat [] = 0"
| "count_sub pat (c # cs) = (if prefix pat (c # cs) then 1 else 0) + count_sub pat cs"

definition guid_free :: "FeedItem \<Rightarrow> bool" where
  "guid_free item = (\<not> str_includes (description item) ''<guid'')"

section \<open>Properties of the aggregator\<close>

subsection \<open>The sort\<close>

lemma mset_insert_by: "mset (insert_by cmp x ys) = add_mset x (mset ys)"
  by (induction ys) auto

lemma mset_array_sort: "mset (array_sort cmp xs) = mset xs"
  by (induction xs) (auto simp: array_sort_def mset_insert_by)

lemma length_array_sort: "length (array_sort cmp xs) = length xs"
  by (metis mset_array_sort size_mset)

lemma set_array_sort: "set (array_sort cmp xs) = set xs"
  by (metis mset_array_sort set_mset_mset)

lemma set_insert_by: "set (insert_by cmp x ys) = insert x (set ys)"
  by (metis mset_insert_by set_mset_mset set_mset_add_mset_insert)

lemma date_key_valid: "valid_date a \<Longrightarrow> date_key a = Fin (time_of a)"
  by (auto simp: valid_date_def date_key_def time_of_def split: option.splits jsnum.splits)

lemma sort_compare_valid:
  "valid_date x \<Longrightarrow> valid_date y \<Longrightarrow> sort_compare by_date x y = time_of y - time_of x"
  by (simp add: sort_compare_def by_date_def date_key_valid)

lemma sorted_insert_by:
  assumes "valid_date x" "\<forall>a\<in>set ys. valid_date a"
    and "sorted_wrt (\<lambda>a b. time_of b \<le> time_of a) ys"
  shows "sorted_wrt (\<lambda>a b. time_of b \<le> time_of a) (insert_by by_date x ys)"
  using assms
proof (induction ys)
  case Nil
  then show ?case by simp
next
  case (Cons y ys)
  show ?case
  proof (cases "sort_compare by_date x y > 0")
    case True
    with Cons.prems have "time_of x < time_of y" by (simp add: sort_compare_valid)
    with True Cons show ?thesis by (auto simp: set_insert_by)
  next
    case False
    with Cons.prems have "time_of y \<le> time_of x" by (simp add: sort_compare_valid)
    with False Cons.prems show ?thesis by auto
  qed
qed

lemma sorted_array_sort:
  "\<forall>a\<in>set xs. valid_date a \<Longrightarrow> sorted_wrt (\<lambda>a b. time_of b \<le> time_of a) (array_sort by_date xs)"
proof (induction xs)
  case Nil
  then show ?case by (simp add: array_sort_def)
next
  case (Cons x xs)
  then have "sorted_wrt (\<lambda>a b. time_of b \<le> time_of a) (insert_by by_date x (array_sort by_date xs))"
    by (intro sorted_insert_by) (auto simp: set_array_sort)
  then show ?case by (simp add: array_sort_def)
qed

lemma filter_insert_by_other:
  "\<not> P x \<Longrightarrow> filter P (insert_by cmp x ys) = filter P ys"
  by (induction ys) auto

lemma filter_insert_by_same:
  assumes "valid_date x" "\<forall>a\<in>set ys. valid_date a" "time_of x = k"
  shows "filter (\<lambda>a. time_of a = k) (insert_by by_date x ys) = x # filter (\<lambda>a. time_of a = k) ys"
  using assms
proof (induction ys)
  case Nil
  then show ?case by simp
next
  case (Cons y ys)
  then show ?case by (auto simp: sort_compare_valid)
qed

lemma stable_array_sort:
  "\<forall>a\<in>set xs. valid_date a \<Longrightarrow>
   filter (\<lambda>a. time_of a = k) (array_sort by_date xs) = filter (\<lambda>a. time_of a = k) xs"
proof (induction xs)
  case Nil
  then show ?case by (simp add: array_sort_def)
next
  case (Cons x xs)
  have unf: "array_sort by_date (x # xs) = insert_by by_date x (array_sort by_date xs)"
    by (simp add: array_sort_def)
  show ?case
  proof (cases "time_of x = k")
    case True
    with Cons show ?thesis
      by (simp add: unf filter_insert_by_same set_array_sort)
  next
    case False
    with Cons show ?thesis
      by (simp add: unf filter_insert_by_other)
  qed
qed

lemma limit_cases: "limit maxItems xs = xs \<or> (\<exists>n. limit maxItems xs = take n xs)"
  by (auto simp: limit_def split: option.splits jsnum.splits)

lemma filter_take_prefix: "prefix (filter P (take n xs)) (filter P xs)"
proof -
  have "filter P xs = filter P (take n xs) @ filter P (drop n xs)"
    by (metis append_take_drop_id filter_append)
  then show ?thesis by (simp add: prefix_def)
qed

lemma aggregate_unfold: "aggregate pd sources maxItems = limit maxItems (array_sort by_date (fetched pd sources))"
  by (simp add: aggregate_def fetched_def)

lemma fetch_or_empty_failed: "\<not> succeeded (snd so) \<Longrightarrow> fetch_or_empty pd so = []"
  by (cases so; cases "snd so")
     (auto simp: fetch_or_empty_def fetchFeed_def succeeded_def split: option.splits)

lemma fetched_filter:
  "fetched pd (filter (\<lambda>so. succeeded (snd so)) sources) = fetched pd sources"
  by (induction sources) (auto simp: fetched_def fetch_or_empty_failed)

lemma length_fetched:
  "length (fetched pd sources) = sum_list (map (\<lambda>so. length (fetch_or_empty pd so)) sources)"
  by (induction sources) (auto simp: fetched_def)

subsection \<open>Ordering of the aggregated list\<close>

text \<open>
  C1 (as amended). When every fetched item has a valid or absent date, the list returned by
  \<open>aggregate\<close> is sorted non-increasing by sort key, where an item without a date has key
  \<open>0\<close> (the epoch): no item that follows an undated item is dated after the epoch. The sort
  is stable: the items of one key keep their order of the concatenated input, and after
  truncation they are a prefix of it.
\<close>

theorem aggregate_sorted_stable:
  assumes valid: "\<forall>a\<in>set (fetched pd sources). valid_date a"
  shows "sorted_wrt (\<lambda>a b. time_of b \<le> time_of a) (aggregate pd sources maxItems) \<and>
         (\<forall>i j. i < j \<and> j < length (aggregate pd sources maxItems) \<and>
                 pubDate (aggregate pd sources maxItems ! i) = None
                 \<longrightarrow> time_of (aggregate pd sources maxItems ! j) \<le> 0) \<and>
         (\<forall>k. prefix (filter (\<lambda>a. time_of a = k) (aggregate pd sources maxItems))
                      (filter (\<lambda>a. time_of a = k) (fetched pd sources))) \<and>
         (\<forall>k. filter (\<lambda>a. time_of a = k) (aggregate pd sources None) =
               filter (\<lambda>a. time_of a = k) (fetched pd sources))"
proof -
  let ?S = "array_sort by_date (fetched pd sources)"
  let ?out = "aggregate pd sources maxItems"
  have S: "sorted_wrt (\<lambda>a b. time_of b \<le> time_of a) ?S"
    by (rule sorted_array_sort [OF valid])
  have st: "\<And>k. filter (\<lambda>a. time_of a = k) ?S = filter (\<lambda>a. time_of a = k) (fetched pd sources)"
    by (rule stable_array_sort [OF valid])
  have out: "?out = ?S \<or> (\<exists>n. ?out = take n ?S)"
    unfolding aggregate_unfold by (rule limit_cases)
  have sorted_out: "sorted_wrt (\<lambda>a b. time_of b \<le> time_of a) ?out"
    using out S by (auto simp: sorted_wrt_take)
  have undated: "time_of (?out ! j) \<le> 0"
    if "i < j" "j < length ?out" "pubDate (?out ! i) = None" for i j
  proof -
    from that sorted_out have "time_of (?out ! j) \<le> time_of (?out ! i)"
      by (simp add: sorted_wrt_iff_nth_less)
    with that(3) show ?thesis by (simp add: time_of_def)
  qed
  have pre: "prefix (filter (\<lambda>a. time_of a = k) ?out) (filter (\<lambda>a. time_of a = k) (fetched pd sources))" for k
    using out st [of k] filter_take_prefix [of "\<lambda>a. time_of a = k" _ ?S] by auto
  have full: "filter (\<lambda>a. time_of a = k) (aggregate pd sources None) =
              filter (\<lambda>a. time_of a = k) (fetched pd sources)" for k
    using st [of k] by (simp add: aggregate_unfold limit_def)
  show ?thesis using sorted_out undated pre full by blast
qed

theorem aggregate_sorted_stable_witness:
  "list_all valid_date (fetched sample_pd
        [sample_source 200 ''<item><title>A</title></item><item><title>B</title><pubDate>Thu, 01 Jan 1970 00:00:01 GMT</pubDate></item><item><title>C</title></item>'']) \<and>
   map title (aggregate sample_pd
        [sample_source 200 ''<item><title>A</title></item><item><title>B</title><pubDate>Thu, 01 Jan 1970 00:00:01 GMT</pubDate></item><item><title>C</title></item>'']
        None) = [''B'', ''A'', ''C''] \<and>
   sorted_wrt (\<lambda>a b. time_of b \<le> time_of a) (aggregate sample_pd
        [sample_source 200 ''<item><title>A</title></item><item><title>B</title><pubDate>Thu, 01 Jan 1970 00:00:01 GMT</pubDate></item><item><title>C</title></item>'']
        None)"
proof -
  let ?src = "[sample_source 200 ''<item><title>A</title></item><item><title>B</title><pubDate>Thu, 01 Jan 1970 00:00:01 GMT</pubDate></item><item><title>C</title></item>'']"
  have l: "list_all valid_date (fetched sample_pd ?src)"
    by code_simp
  then have h: "\<forall>a\<in>set (fetched sample_pd ?src). valid_date a"
    by (simp add: list_all_iff)
  have v: "map title (aggregate sample_pd ?src None) = [''B'', ''A'', ''C'']"
    by code_simp
  from aggregate_sorted_stable [OF h, of None]
  have "sorted_wrt (\<lambda>a b. time_of b \<le> time_of a) (aggregate sample_pd ?src None)"
    by blast
  with l v show ?thesis by blast
qed

text \<open>
  C1 (as stated) fails: an item without a date is given the epoch as its sort key, so it is
  placed before an item dated earlier than 1970. Here the feed lists an undated item and
  then an item dated one second before the epoch; the undated item stays first.
\<close>

theorem aggregate_undated_before_dated:
  "map dated (aggregate sample_pd
        [sample_source 200 ''<item><title>A</title></item><item><title>B</title><pubDate>Wed, 31 Dec 1969 23:59:59 GMT</pubDate></item>'']
        None) = [(''A'', None), (''B'', Some (Fin (- 1000)))]"
  by code_simp

subsection \<open>Dates that do not parse\<close>

text \<open>
  C2. The item \<open>A\<close> carries date text the host cannot parse, so its \<open>pubDate\<close> is an Invalid
  Date. The comparator then returns \<open>NaN\<close> for every pair with \<open>A\<close>, which the sort reads as
  a tie: \<open>A\<close> stays before the validly dated \<open>B\<close>. Had the date been absent, \<open>A\<close> would have
  been placed after \<open>B\<close>. Between two validly dated items \<open>A\<close> even keeps the older one first.
\<close>

theorem aggregate_invalid_date_not_oldest:
  "map dated (aggregate sample_pd
        [sample_source 200 ''<item><title>A</title><pubDate>soon</pubDate></item><item><title>B</title><pubDate>Thu, 01 Jan 1970 00:00:01 GMT</pubDate></item>'']
        None) = [(''A'', Some NaN), (''B'', Some (Fin 1000))] \<and>
   map dated (aggregate sample_pd
        [sample_source 200 ''<item><title>A</title></item><item><title>B</title><pubDate>Thu, 01 Jan 1970 00:00:01 GMT</pubDate></item>'']
        None) = [(''B'', Some (Fin 1000)), (''A'', None)] \<and>
   map dated (aggregate sample_pd
        [sample_source 200 ''<item><title>B</title><pubDate>Thu, 01 Jan 1970 00:00:01 GMT</pubDate></item><item><title>A</title><pubDate>soon</pubDate></item><item><title>C</title><pubDate>Thu, 01 Jan 1970 00:00:02 GMT</pubDate></item>'']
        None) = [(''B'', Some (Fin 1000)), (''A'', Some NaN), (''C'', Some (Fin 2000))]"
  by code_simp

subsection \<open>Truncation\<close>

text \<open>
  C3. With \<open>maxItems = k\<close> positive, \<open>aggregate\<close> returns the first \<open>k\<close> entries of the sorted
  merge, so its length is the minimum of \<open>k\<close> and the number of merged items; with
  \<open>maxItems\<close> unset, zero, negative or \<open>NaN\<close> it returns the whole sorted merge.
\<close>

theorem aggregate_limit:
  "aggregate pd sources None = array_sort by_date (fetched pd sources) \<and>
   length (aggregate pd sources None) = length (fetched pd sources) \<and>
   (0 < k \<longrightarrow>
      aggregate pd sources (Some (Fin k)) = take (nat k) (aggregate pd sources None) \<and>
      length (aggregate pd sources (Some (Fin k))) = min (nat k) (length (fetched pd sources))) \<and>
   (k \<le> 0 \<longrightarrow> aggregate pd sources (Some (Fin k)) = aggregate pd sources None) \<and>
   aggregate pd sources (Some NaN) = aggregate pd sources None"
  by (auto simp: aggregate_unfold limit_def length_array_sort)

theorem aggregate_limit_witness:
  "(0::int) < 2 \<and> (0::int) \<le> 0 \<and>
   map title (aggregate sample_pd
     [sample_source 200 ''<item><title>A</title></item><item><title>B</title><pubDate>Thu, 01 Jan 1970 00:00:01 GMT</pubDate></item><item><title>C</title></item>'']
     (Some (Fin 2))) = [''B'', ''A''] \<and>
   length (aggregate sample_pd
     [sample_source 200 ''<item><title>A</title></item><item><title>B</title><pubDate>Thu, 01 Jan 1970 00:00:01 GMT</pubDate></item><item><title>C</title></item>'']
     (Some (Fin 2))) = min (nat 2) (length (fetched sample_pd
     [sample_source 200 ''<item><title>A</title></item><item><title>B</title><pubDate>Thu, 01 Jan 1970 00:00:01 GMT</pubDate></item><item><title>C</title></item>''])) \<and>
   aggregate sample_pd
     [sample_source 200 ''<item><title>A</title></item><item><title>B</title><pubDate>Thu, 01 Jan 1970 00:00:01 GMT</pubDate></item><item><title>C</title></item>'']
     (Some (Fin 0)) =
   aggregate sample_pd
     [sample_source 200 ''<item><title>A</title></item><item><title>B</title><pubDate>Thu, 01 Jan 1970 00:00:01 GMT</pubDate></item><item><title>C</title></item>'']
     None"
proof -
  let ?src = "[sample_source 200 ''<item><title>A</title></item><item><title>B</title><pubDate>Thu, 01 Jan 1970 00:00:01 GMT</pubDate></item><item><title>C</title></item>'']"
  have v: "map title (aggregate sample_pd ?src (Some (Fin 2))) = [''B'', ''A'']"
    by code_simp
  have p: "(0::int) < 2" and z: "(0::int) \<le> 0" by simp_all
  from aggregate_limit [of sample_pd ?src 2] p
  have l: "length (aggregate sample_pd ?src (Some (Fin 2))) = min (nat 2) (length (fetched sample_pd ?src))"
    by blast
  from aggregate_limit [of sample_pd ?src 0] z
  have e: "aggregate sample_pd ?src (Some (Fin 0)) = aggregate sample_pd ?src None"
    by blast
  from p z v l e show ?thesis by blast
qed

subsection \<open>Fault isolation\<close>

text \<open>
  C4. A source whose fetch is rejected, whose status is outside 200..299 or whose body
  cannot be read contributes the empty list; a source that succeeds contributes what the
  parser returns for its body. \<open>aggregate\<close> returns the same list as it does on the
  successful sources alone, its items are exactly theirs, and its length is the sum of
  their item counts, bounded by \<open>maxItems\<close>.
\<close>

theorem aggregate_fault_isolation:
  "(\<not> succeeded (snd so) \<longrightarrow> fetch_or_empty pd so = []) \<and>
   fetch_or_empty pd (s, NetworkError) = [] \<and>
   fetch_or_empty pd (s, Response status None) = [] \<and>
   fetch_or_empty pd (s, Response status (Some xml)) =
     (if response_ok status then parse pd xml (sf_url s) (Some (sf_title s)) else []) \<and>
   aggregate pd sources maxItems =
     aggregate pd (filter (\<lambda>so. succeeded (snd so)) sources) maxItems \<and>
   mset (aggregate pd sources None) =
     mset (concat (map (fetch_or_empty pd) (filter (\<lambda>so. succeeded (snd so)) sources))) \<and>
   length (aggregate pd sources None) =
     sum_list (map (\<lambda>so. length (fetch_or_empty pd so)) (filter (\<lambda>so. succeeded (snd so)) sources)) \<and>
   (0 < k \<longrightarrow> length (aggregate pd sources (Some (Fin k))) =
     min (nat k) (sum_list (map (\<lambda>so. length (fetch_or_empty pd so))
                                (filter (\<lambda>so. succeeded (snd so)) sources))))"
proof -
  let ?ok = "filter (\<lambda>so. succeeded (snd so)) sources"
  have a: "\<not> succeeded (snd so) \<longrightarrow> fetch_or_empty pd so = []"
    by (simp add: fetch_or_empty_failed)
  have b: "fetch_or_empty pd (s, NetworkError) = []"
    "fetch_or_empty pd (s, Response status None) = []"
    "fetch_or_empty pd (s, Response status (Some xml)) =
       (if response_ok status then parse pd xml (sf_url s) (Some (sf_title s)) else [])"
    by (simp_all add: fetch_or_empty_def fetchFeed_def)
  have c: "aggregate pd sources maxItems = aggregate pd ?ok maxItems"
    by (simp add: aggregate_unfold fetched_filter)
  have d: "mset (aggregate pd sources None) = mset (concat (map (fetch_or_empty pd) ?ok))"
    using fetched_filter [of pd sources]
    by (simp add: aggregate_unfold limit_def mset_array_sort fetched_def)
  have e: "length (aggregate pd sources None) =
           sum_list (map (\<lambda>so. length (fetch_or_empty pd so)) ?ok)"
    using fetched_filter [of pd sources] length_fetched [of pd ?ok]
    by (simp add: aggregate_unfold limit_def length_array_sort)
  have f: "0 < k \<longrightarrow> length (aggregate pd sources (Some (Fin k))) =
     min (nat k) (sum_list (map (\<lambda>so. length (fetch_or_empty pd so)) ?ok))"
    using fetched_filter [of pd sources] length_fetched [of pd ?ok]
    by (auto simp: aggregate_unfold limit_def length_array_sort)
  from a b c d e f show ?thesis by blast
qed

theorem aggregate_fault_isolation_witness:
  "\<not> succeeded (snd (sample_source 500 ''<item><title>X</title></item>'')) \<and>
   (0::int) < 5 \<and>
   fetch_or_empty sample_pd (sample_source 500 ''<item><title>X</title></item>'') = [] \<and>
   map title (aggregate sample_pd
     [sample_source 200 ''<item><title>A</title></item>'',
      sample_source 500 ''<item><title>X</title></item>'',
      sample_source 200 ''<item><title>B</title></item><item><title>C</title></item>'']
     (Some (Fin 5))) = [''A'', ''B'', ''C''] \<and>
   length (aggregate sample_pd
     [sample_source 200 ''<item><title>A</title></item>'',
      sample_source 500 ''<item><title>X</title></item>'',
      sample_source 200 ''<item><title>B</title></item><item><title>C</title></item>'']
     (Some (Fin 5))) = 3"
proof -
  let ?bad = "sample_source 500 ''<item><title>X</title></item>''"
  have h: "\<not> succeeded (snd ?bad)"
    by (simp add: sample_source_def succeeded_def response_ok_def)
  have p: "(0::int) < 5" by simp
  let ?srcs = "[sample_source 200 ''<item><title>A</title></item>'', ?bad,
      sample_source 200 ''<item><title>B</title></item><item><title>C</title></item>'']"
  note inst = aggregate_fault_isolation [where so = ?bad and pd = sample_pd and sources = ?srcs and k = 5]
  from inst h have e: "fetch_or_empty sample_pd ?bad = []" by blast
  from inst p have "length (aggregate sample_pd ?srcs (Some (Fin 5))) =
     min (nat 5) (sum_list (map (\<lambda>so. length (fetch_or_empty sample_pd so))
                                (filter (\<lambda>so. succeeded (snd so)) ?srcs)))" by blast
  also have "\<dots> = 3" by code_simp
  finally have l: "length (aggregate sample_pd ?srcs (Some (Fin 5))) = 3" .
  have v: "map title (aggregate sample_pd
     [sample_source 200 ''<item><title>A</title></item>'', ?bad,
      sample_source 200 ''<item><title>B</title></item><item><title>C</title></item>'']
     (Some (Fin 5))) = [''A'', ''B'', ''C'']"
    by code_simp
  from h p e v l show ?thesis by blast
qed

section \<open>Properties of the builder\<close>

lemma opt_elem_not_guid:
  "name \<in> {''author'', ''category'', ''comments''} \<Longrightarrow> filter is_guid_element (opt_elem name v) = []"
  by (auto simp: opt_elem_def is_guid_element_def split: option.splits)

lemma opt_date_not_guid: "filter is_guid_element (opt_date ''pubDate'' v) = []"
  by (auto simp: opt_date_def is_guid_element_def split: option.splits)

lemma enclosure_not_guid: "filter is_guid_element (enclosure_lines e) = []"
  by (auto simp: enclosure_lines_def is_guid_element_def split: option.splits)

lemma source_not_guid: "filter is_guid_element (source_lines e) = []"
  by (auto simp: source_lines_def is_guid_element_def split: option.splits)

lemma guid_line_is_guid: "is_guid_element (guid_line item)"
  by (simp add: guid_line_def is_guid_element_def Let_def)

text \<open>
  C10. A \<open>ttl\<close>, image width or image height that is present with value \<open>0\<close> emits no
  element: the document is the same text as for a configuration without that field.
\<close>

theorem zero_numbers_omitted:
  "opt_num name (Some (Fin 0)) = [] \<and>
   build (config\<lparr>cfg_ttl := Some (Fin 0)\<rparr>) items = build (config\<lparr>cfg_ttl := None\<rparr>) items \<and>
   build (config\<lparr>cfg_image := Some (img\<lparr>img_width := Some (Fin 0)\<rparr>)\<rparr>) items =
     build (config\<lparr>cfg_image := Some (img\<lparr>img_width := None\<rparr>)\<rparr>) items \<and>
   build (config\<lparr>cfg_image := Some (img\<lparr>img_height := Some (Fin 0)\<rparr>)\<rparr>) items =
     build (config\<lparr>cfg_image := Some (img\<lparr>img_height := None\<rparr>)\<rparr>) items"
  by (simp add: build_def channel_lines_def image_lines_def opt_num_def)

section \<open>Properties of the parser\<close>

lemma str_includes_sublist: "str_includes s pat \<longleftrightarrow> sublist pat s"
  by (induction s) (auto simp: sublist_Cons_right)

lemma lower_lt [simp]: "lower c = CHR ''<'' \<longleftrightarrow> c = CHR ''<''"
  by (simp add: lower_def)

lemma lower_lt' [simp]: "CHR ''<'' = lower c \<longleftrightarrow> c = CHR ''<''"
  by (auto simp: lower_def)

lemma lower_lt_const [simp]: "lower CHR ''<'' = CHR ''<''"
  by (simp add: lower_def)

lemma find_ci_no_lt: "CHR ''<'' \<notin> set s \<Longrightarrow> find_ci (CHR ''<'' # p) s = None"
  by (induction s) auto

lemma exec_none: "(\<And>r. suffix r s \<Longrightarrow> m r = None) \<Longrightarrow> exec m s = None"
proof (induction s)
  case Nil
  then show ?case by simp
next
  case (Cons c cs)
  have "m (c # cs) = None" by (rule Cons.prems) simp
  moreover have "exec m cs = None"
    by (rule Cons.IH) (simp add: Cons.prems suffix_Cons)
  ultimately show ?case by simp
qed

lemma suffix_no_lt: "suffix r s \<Longrightarrow> CHR ''<'' \<notin> set s \<Longrightarrow> CHR ''<'' \<notin> set r"
  by (auto simp: suffix_def)

lemma ci_prefix_lt_mem: "ci_prefix (CHR ''<'' # p) r \<Longrightarrow> CHR ''<'' \<in> set r"
  by (cases r) auto

lemma tag_at_no_lt: "CHR ''<'' \<notin> set r \<Longrightarrow> tag_at tagName r = None"
  by (auto simp: tag_at_def dest: ci_prefix_lt_mem)

lemma cdata_at_no_lt: "CHR ''<'' \<notin> set r \<Longrightarrow> cdata_at tagName r = None"
  by (auto simp: cdata_at_def dest: ci_prefix_lt_mem)

lemma ns_tag_at_no_lt: "CHR ''<'' \<notin> set r \<Longrightarrow> ns_tag_at tagName r = None"
  by (cases r) (auto simp: ns_tag_at_def)

lemma block_at_no_lt: "CHR ''<'' \<notin> set r \<Longrightarrow> block_at (CHR ''<'' # p) cls r = None"
  by (auto simp: block_at_def dest: ci_prefix_lt_mem)

lemma link_at_no_lt: "CHR ''<'' \<notin> set r \<Longrightarrow> link_at r = None"
  using ci_prefix_lt_mem [of "''link''" r] by (auto simp: link_at_def)

lemma extractTag_no_lt: "CHR ''<'' \<notin> set xml \<Longrightarrow> extractTag xml tagName = None"
  by (simp add: extractTag_def exec_none tag_at_no_lt ns_tag_at_no_lt suffix_no_lt)

lemma extractCDATA_no_lt: "CHR ''<'' \<notin> set xml \<Longrightarrow> extractCDATA xml tagName = None"
  by (simp add: extractCDATA_def exec_none cdata_at_no_lt suffix_no_lt)

lemma item_spans_no_lt: "CHR ''<'' \<notin> set xml \<Longrightarrow> item_spans xml = []"
  by (subst item_spans.simps) (simp add: exec_none block_at_no_lt suffix_no_lt)

lemma entry_spans_no_lt: "CHR ''<'' \<notin> set xml \<Longrightarrow> entry_spans xml = []"
  by (subst entry_spans.simps) (simp add: exec_none block_at_no_lt suffix_no_lt)

lemma or_str_nonempty: "d \<noteq> [] \<Longrightarrow> or_str a d \<noteq> []"
  by (auto simp: or_str_def split: option.splits)

text \<open>
  C7. \<open>parse\<close> takes the Atom path, which extracts the \<open>entry\<close> elements, exactly when the
  document contains both \<open><feed\<close> and the Atom namespace declaration; otherwise it takes
  the RSS path, which extracts the \<open>item\<close> elements. A document with both markers is read
  as Atom also when the text \<open>rss\<close> occurs later in it.
\<close>

theorem parse_dialect:
  "(sublist ''<feed'' xml \<and> sublist atom_xmlns xml \<longrightarrow>
      parse pd xml u t = map (atom_item pd u t) (entry_spans xml)) \<and>
   (\<not> (sublist ''<feed'' xml \<and> sublist atom_xmlns xml) \<longrightarrow>
      parse pd xml u t = map (rss_item pd u t) (item_spans xml)) \<and>
   parse pd (a @ ''<feed'' @ b @ atom_xmlns @ c @ ''rss'' @ d) u t =
     map (atom_item pd u t) (entry_spans (a @ ''<feed'' @ b @ atom_xmlns @ c @ ''rss'' @ d))"
proof -
  have 1: "isAtom xml \<longleftrightarrow> sublist ''<feed'' xml \<and> sublist atom_xmlns xml" for xml
    by (simp add: isAtom_def str_includes_sublist)
  have 2: "sublist ''<feed'' (a @ ''<feed'' @ b @ atom_xmlns @ c @ ''rss'' @ d)"
    unfolding sublist_def by blast
  have 3: "sublist atom_xmlns (a @ ''<feed'' @ b @ atom_xmlns @ c @ ''rss'' @ d)"
    unfolding sublist_def by (metis append.assoc)
  from 2 3 have "isAtom (a @ ''<feed'' @ b @ atom_xmlns @ c @ ''rss'' @ d)"
    unfolding 1 by blast
  then show ?thesis
    using 1 [of xml] by (simp add: parse_def parseAtom_def parseRSS_def)
qed

theorem parse_dialect_witness:
  "sublist ''<feed'' (''<feed '' @ atom_xmlns @ ''>rss<item><title>I</title></item><entry><title>E</title></entry></feed>'') \<and>
   sublist atom_xmlns (''<feed '' @ atom_xmlns @ ''>rss<item><title>I</title></item><entry><title>E</title></entry></feed>'') \<and>
   map title (parse sample_pd (''<feed '' @ atom_xmlns @ ''>rss<item><title>I</title></item><entry><title>E</title></entry></feed>'') ''u'' None) = [''E''] \<and>
   \<not> (sublist ''<feed'' ''<rss><feed><item><title>I</title></item><entry><title>E</title></entry></rss>'' \<and>
      sublist atom_xmlns ''<rss><feed><item><title>I</title></item><entry><title>E</title></entry></rss>'') \<and>
   map title (parse sample_pd ''<rss><feed><item><title>I</title></item><entry><title>E</title></entry></rss>'' ''u'' None) = [''I'']"
proof -
  let ?atom = "''<feed '' @ atom_xmlns @ ''>rss<item><title>I</title></item><entry><title>E</title></entry></feed>''"
  let ?rss = "''<rss><feed><item><title>I</title></item><entry><title>E</title></entry></rss>''"
  have "str_includes ?atom ''<feed''" "str_includes ?atom atom_xmlns"
    by code_simp+
  then have h1: "sublist ''<feed'' ?atom \<and> sublist atom_xmlns ?atom"
    by (simp add: str_includes_sublist)
  have "\<not> str_includes ?rss atom_xmlns"
    by code_simp
  then have h2: "\<not> (sublist ''<feed'' ?rss \<and> sublist atom_xmlns ?rss)"
    by (simp add: str_includes_sublist)
  from parse_dialect [of ?atom sample_pd "''u''" None] h1
  have "parse sample_pd ?atom ''u'' None = map (atom_item sample_pd ''u'' None) (entry_spans ?atom)"
    by blast
  moreover have "map title (map (atom_item sample_pd ''u'' None) (entry_spans ?atom)) = [''E'']"
    by code_simp
  ultimately have v1: "map title (parse sample_pd ?atom ''u'' None) = [''E'']"
    by simp
  from parse_dialect [of ?rss sample_pd "''u''" None] h2
  have "parse sample_pd ?rss ''u'' None = map (rss_item sample_pd ''u'' None) (item_spans ?rss)"
    by blast
  moreover have "map title (map (rss_item sample_pd ''u'' None) (item_spans ?rss)) = [''I'']"
    by code_simp
  ultimately have v2: "map title (parse sample_pd ?rss ''u'' None) = [''I'']"
    by simp
  from h1 h2 v1 v2 show ?thesis by blast
qed

text \<open>
  C8. \<open>parse\<close> returns a list for every input, one item per recognised \<open>item\<close> or \<open>entry\<close>
  span, and the empty list when there is none. An extraction that finds nothing returns
  \<open>None\<close>, and the field is then defaulted or omitted: the title is \<open>Untitled\<close> (no parsed
  item has an empty title) and the link is empty. On text without any \<open><\<close> every
  extraction finds nothing.
\<close>

theorem parse_never_fails:
  "length (parse pd xml u t) = length (if isAtom xml then entry_spans xml else item_spans xml) \<and>
   (item_spans xml = [] \<and> entry_spans xml = [] \<longrightarrow> parse pd xml u t = []) \<and>
   list_all (\<lambda>it. title it \<noteq> []) (parse pd xml u t) \<and>
   (extractTag span ''title'' = None \<longrightarrow>
      title (rss_item pd u t span) = ''Untitled'' \<and> title (atom_item pd u t span) = ''Untitled'') \<and>
   (extractTag span ''link'' = None \<longrightarrow> link (rss_item pd u t span) = []) \<and>
   (exec link_at span = None \<longrightarrow> link (atom_item pd u t span) = []) \<and>
   (CHR ''<'' \<notin> set xml \<longrightarrow>
      extractTag xml tagName = None \<and> extractCDATA xml tagName = None \<and> exec link_at xml = None \<and>
      parse pd xml u t = [] \<and>
      rss_item pd u t xml = (plain_item ''Untitled'' [] []) \<lparr>source := attach_source u t\<rparr> \<and>
      atom_item pd u t xml = (plain_item ''Untitled'' [] []) \<lparr>source := attach_source u t\<rparr>)"
proof -
  have a: "length (parse pd xml u t) = length (if isAtom xml then entry_spans xml else item_spans xml)"
    by (simp add: parse_def parseAtom_def parseRSS_def)
  have b: "item_spans xml = [] \<and> entry_spans xml = [] \<longrightarrow> parse pd xml u t = []"
    by (simp add: parse_def parseAtom_def parseRSS_def)
  have c: "list_all (\<lambda>it. title it \<noteq> []) (parse pd xml u t)"
    by (simp add: parse_def parseAtom_def parseRSS_def list_all_iff rss_item_def atom_item_def
        or_str_nonempty)
  have d: "extractTag span ''title'' = None \<longrightarrow>
      title (rss_item pd u t span) = ''Untitled'' \<and> title (atom_item pd u t span) = ''Untitled''"
    by (simp add: rss_item_def atom_item_def or_str_def)
  have e: "extractTag span ''link'' = None \<longrightarrow> link (rss_item pd u t span) = []"
    by (simp add: rss_item_def or_str_def)
  have f: "exec link_at span = None \<longrightarrow> link (atom_item pd u t span) = []"
    by (simp add: atom_item_def)
  have g: "extractTag xml tagName = None \<and> extractCDATA xml tagName = None \<and> exec link_at xml = None \<and>
      parse pd xml u t = [] \<and>
      rss_item pd u t xml = (plain_item ''Untitled'' [] []) \<lparr>source := attach_source u t\<rparr> \<and>
      atom_item pd u t xml = (plain_item ''Untitled'' [] []) \<lparr>source := attach_source u t\<rparr>"
    if nlt: "CHR ''<'' \<notin> set xml"
  proof -
    have x: "extractTag xml n = None" "extractCDATA xml n = None" for n
      using nlt by (simp_all add: extractTag_no_lt extractCDATA_no_lt)
    have l: "exec link_at xml = None"
      using nlt by (simp add: exec_none link_at_no_lt suffix_no_lt)
    have p: "parse pd xml u t = []"
      using nlt by (simp add: parse_def parseAtom_def parseRSS_def item_spans_no_lt entry_spans_no_lt)
    have r: "rss_item pd u t xml = (plain_item ''Untitled'' [] []) \<lparr>source := attach_source u t\<rparr>"
      by (simp add: rss_item_def x plain_item_def or_str_def js_or_def if_truthy_def parse_date_def)
    have s: "atom_item pd u t xml = (plain_item ''Untitled'' [] []) \<lparr>source := attach_source u t\<rparr>"
      by (simp add: atom_item_def atom_author_def x l plain_item_def or_str_def js_or_def
          if_truthy_def parse_date_def)
    from x l p r s show ?thesis by blast
  qed
  from a b c d e f g show ?thesis by blast
qed

theorem parse_never_fails_witness:
  "item_spans ''<rss><channel></channel></rss>'' = [] \<and>
   entry_spans ''<rss><channel></channel></rss>'' = [] \<and>
   parse sample_pd ''<rss><channel></channel></rss>'' ''u'' None = [] \<and>
   extractTag ''<link>a</link>'' ''title'' = None \<and>
   title (rss_item sample_pd ''u'' None ''<link>a</link>'') = ''Untitled'' \<and>
   extractTag ''<title>a</title>'' ''link'' = None \<and>
   link (rss_item sample_pd ''u'' None ''<title>a</title>'') = [] \<and>
   exec link_at ''<title>a</title>'' = None \<and>
   link (atom_item sample_pd ''u'' None ''<title>a</title>'') = [] \<and>
   CHR ''<'' \<notin> set ''not a feed'' \<and>
   parse sample_pd ''not a feed'' ''u'' None = []"
proof -
  have h1: "item_spans ''<rss><channel></channel></rss>'' = [] \<and>
            entry_spans ''<rss><channel></channel></rss>'' = []"
    by code_simp
  have h2: "extractTag ''<link>a</link>'' ''title'' = None"
    by code_simp
  have h3: "extractTag ''<title>a</title>'' ''link'' = None"
    by code_simp
  have h4: "exec link_at ''<title>a</title>'' = None"
    by code_simp
  have h5: "CHR ''<'' \<notin> set ''not a feed''"
    by simp
  from parse_never_fails [where xml = "''<rss><channel></channel></rss>''" and pd = sample_pd and u = "''u''" and t = None] h1
  have c1: "parse sample_pd ''<rss><channel></channel></rss>'' ''u'' None = []"
    by blast
  from parse_never_fails [where span = "''<link>a</link>''" and pd = sample_pd and u = "''u''" and t = None] h2
  have c2: "title (rss_item sample_pd ''u'' None ''<link>a</link>'') = ''Untitled''"
    by blast
  from parse_never_fails [where span = "''<title>a</title>''" and pd = sample_pd and u = "''u''" and t = None] h3 h4
  have c3: "link (rss_item sample_pd ''u'' None ''<title>a</title>'') = []"
    and c4: "link (atom_item sample_pd ''u'' None ''<title>a</title>'') = []"
    by blast+
  from parse_never_fails [where xml = "''not a feed''" and pd = sample_pd and u = "''u''" and t = None] h5
  have c5: "parse sample_pd ''not a feed'' ''u'' None = []"
    by blast
  from h1 h2 h3 h4 h5 c1 c2 c3 c4 c5 show ?thesis by blast
qed

section \<open>Round trip through builder and parser\<close>

subsection \<open>Searching in concatenated text\<close>

lemma ci_prefix_self: "ci_prefix pat (pat @ rest)"
  by (induction pat) auto

lemma find_ci_here: "ci_prefix pat s \<Longrightarrow> find_ci pat s = Some ([], drop (length pat) s)"
  by (cases s; cases pat) auto

lemma find_ci_self: "find_ci pat (pat @ rest) = Some ([], rest)"
  using find_ci_here [OF ci_prefix_self, of pat rest] by simp

lemma ci_prefix_foreign:
  "lower c \<notin> lower ` set pat \<Longrightarrow> ci_prefix pat (r @ c # t) = ci_prefix pat r"
proof (induction pat arbitrary: r)
  case Nil
  then show ?case by simp
next
  case (Cons p ps)
  then show ?case by (cases r) auto
qed

lemma find_ci_None_nonempty: "find_ci pat x = None \<Longrightarrow> pat \<noteq> []"
  by (cases x) (auto split: if_splits)

lemma find_ci_foreign:
  assumes "find_ci pat x = None" "lower c \<notin> lower ` set pat"
  shows "find_ci pat (x @ c # t) = map_option (\<lambda>(b, a). (x @ b, a)) (find_ci pat (c # t))"
  using assms(1)
proof (induction x)
  case Nil
  then show ?case by (cases "find_ci pat (c # t)") auto
next
  case (Cons a x)
  from Cons.prems have n: "\<not> ci_prefix pat (a # x)" and f: "find_ci pat x = None"
    by (auto split: if_splits)
  from n have "\<not> ci_prefix pat ((a # x) @ c # t)"
    by (simp only: ci_prefix_foreign [OF assms(2)] not_False_eq_True)
  then show ?case
    using Cons.IH [OF f] by (cases "find_ci pat (c # t)") (auto simp: option.map_comp comp_def)
qed

lemma find_ci_foreign_None:
  assumes "find_ci pat x = None" "lower c \<notin> lower ` set pat" "find_ci pat t = None"
  shows "find_ci pat (x @ c # t) = None"
proof -
  from assms(2) find_ci_None_nonempty [OF assms(1)] have "\<not> ci_prefix pat (c # t)"
    by (cases pat) auto
  with assms(3) have "find_ci pat (c # t) = None" by simp
  with find_ci_foreign [OF assms(1,2)] show ?thesis by simp
qed

lemma find_ci_tame:
  "CHR ''<'' \<notin> set x \<Longrightarrow>
   find_ci (CHR ''<'' # q) (x @ rest) = map_option (\<lambda>(b, a). (x @ b, a)) (find_ci (CHR ''<'' # q) rest)"
proof (induction x)
  case Nil
  then show ?case by (cases "find_ci (CHR ''<'' # q) rest") auto
next
  case (Cons a x)
  then show ?case
    by (cases "find_ci (CHR ''<'' # q) rest") (auto simp: lower_def)
qed

lemma lower_lits:
  "lower CHR ''a'' = CHR ''a''" "lower CHR ''b'' = CHR ''b''" "lower CHR ''c'' = CHR ''c''"
  "lower CHR ''d'' = CHR ''d''" "lower CHR ''e'' = CHR ''e''" "lower CHR ''f'' = CHR ''f''"
  "lower CHR ''g'' = CHR ''g''" "lower CHR ''h'' = CHR ''h''" "lower CHR ''i'' = CHR ''i''"
  "lower CHR ''j'' = CHR ''j''" "lower CHR ''k'' = CHR ''k''" "lower CHR ''l'' = CHR ''l''"
  "lower CHR ''m'' = CHR ''m''" "lower CHR ''n'' = CHR ''n''" "lower CHR ''o'' = CHR ''o''"
  "lower CHR ''p'' = CHR ''p''" "lower CHR ''q'' = CHR ''q''" "lower CHR ''r'' = CHR ''r''"
  "lower CHR ''s'' = CHR ''s''" "lower CHR ''t'' = CHR ''t''" "lower CHR ''u'' = CHR ''u''"
  "lower CHR ''v'' = CHR ''v''" "lower CHR ''w'' = CHR ''w''" "lower CHR ''x'' = CHR ''x''"
  "lower CHR ''y'' = CHR ''y''" "lower CHR ''z'' = CHR ''z''"
  "lower CHR ''<'' = CHR ''<''" "lower CHR ''>'' = CHR ''>''" "lower CHR ''/'' = CHR ''/''"
  "lower CHR ''['' = CHR ''[''" "lower CHR '']'' = CHR '']''" "lower CHR ''!'' = CHR ''!''"
  "lower CHR ''?'' = CHR ''?''" "lower CHR '':'' = CHR '':''" "lower CHR ''='' = CHR ''=''"
  "lower CHR '' '' = CHR '' ''" "lower CHR 0x0A = CHR 0x0A" "lower CHR 0x22 = CHR 0x22"
  "lower CHR ''A'' = CHR ''a''" "lower CHR ''C'' = CHR ''c''" "lower CHR ''D'' = CHR ''d''"
  "lower CHR ''T'' = CHR ''t''"
  by (simp_all add: lower_def)

lemma find_ci_not_lt:
  "c \<noteq> CHR ''<'' \<Longrightarrow>
   find_ci (CHR ''<'' # q) (c # cs) = map_option (\<lambda>(b, a). (c # b, a)) (find_ci (CHR ''<'' # q) cs)"
  by simp

lemma find_ci_at_lt:
  "find_ci (CHR ''<'' # q) (CHR ''<'' # cs) =
     (if ci_prefix q cs then Some ([], drop (length q) cs)
      else map_option (\<lambda>(b, a). (CHR ''<'' # b, a)) (find_ci (CHR ''<'' # q) cs))"
  by simp

lemma find_ci_lt_Nil: "find_ci (CHR ''<'' # q) [] = None"
  by simp

lemmas scan = find_ci_not_lt find_ci_at_lt find_ci_lt_Nil find_ci_tame lower_lits

subsection \<open>Escaping and decoding\<close>

lemma replace_char:
  "replace_all [a] rep s = concat (map (\<lambda>c. if c = a then rep else [c]) s)"
  by (induction s) auto

lemma escapeXML_Cons: "escapeXML (c # s) = entity c @ escapeXML s"
  by (simp add: escapeXML_def replace_char entity_def)

lemma escapeXML_Nil: "escapeXML [] = []"
  by (simp add: escapeXML_def)

lemma escapeXML_concat: "escapeXML s = concat (map (escs (insert CHR ''&'' special)) s)"
  by (induction s) (auto simp: escapeXML_Cons escapeXML_Nil escs_def entity_def special_def)

lemma replace_all_match:
  "pat \<noteq> [] \<Longrightarrow> replace_all pat rep (pat @ rest) = rep @ replace_all pat rep rest"
  by (cases pat) auto

lemma prefix_escs:
  "set w \<inter> insert CHR ''&'' special = {} \<Longrightarrow> S \<subseteq> special \<Longrightarrow>
   prefix w (concat (map (escs S) t)) \<longleftrightarrow> prefix w t"
proof (induction w arbitrary: t)
  case Nil
  then show ?case by simp
next
  case (Cons a w)
  show ?case
  proof (cases t)
    case Nil
    then show ?thesis by simp
  next
    case (Cons c t')
    show ?thesis
    proof (cases "c \<in> S")
      case True
      with Cons.prems(2) have cs: "c \<in> special" by blast
      from Cons.prems(1) have "a \<noteq> CHR ''&''" "a \<notin> special" by auto
      with cs True have "\<not> prefix (a # w) (escs S c @ concat (map (escs S) t'))" "a \<noteq> c"
        by (auto simp: escs_def entity_def special_def)
      with Cons show ?thesis by simp
    next
      case False
      with Cons.IH [of t'] Cons.prems Cons show ?thesis by (simp add: escs_def)
    qed
  qed
qed

lemma unescape_amp_Cons:
  "replace_all ''&amp;'' ''&'' (escs (insert CHR ''&'' special) c @ rest) =
   escs special c @ replace_all ''&amp;'' ''&'' rest"
proof -
  consider "c = CHR ''&''" | "c = CHR ''<''" | "c = CHR ''>''" | "c = CHR 0x22" | "c = CHR 0x27"
    | "c \<notin> insert CHR ''&'' special" by (auto simp: special_def)
  then show ?thesis
    by cases (auto simp: escs_def entity_def special_def)
qed

lemma unescape_amp:
  "replace_all ''&amp;'' ''&'' (concat (map (escs (insert CHR ''&'' special)) t)) =
   concat (map (escs special) t)"
  by (induction t) (simp_all add: unescape_amp_Cons)

lemma entity_special: "a \<in> special \<Longrightarrow> entity a \<noteq> [] \<and> hd (entity a) = CHR ''&'' \<and>
  set (tl (entity a)) \<inter> insert CHR ''&'' special = {}"
  by (auto simp: special_def entity_def)

lemma replace_other_entity:
  "a \<in> special \<Longrightarrow> c \<in> special \<Longrightarrow> c \<noteq> a \<Longrightarrow>
   replace_all (entity a) [a] (entity c @ rest) = entity c @ replace_all (entity a) [a] rest"
proof -
  assume "a \<in> special" "c \<in> special" and ne: "c \<noteq> a"
  then have "a = CHR ''<'' \<or> a = CHR ''>'' \<or> a = CHR 0x22 \<or> a = CHR 0x27"
    "c = CHR ''<'' \<or> c = CHR ''>'' \<or> c = CHR 0x22 \<or> c = CHR 0x27"
    by (simp_all add: special_def)
  then show ?thesis using ne
    by (elim disjE) (simp_all add: entity_def)
qed

lemma unescape_step:
  assumes "a \<in> S" "S \<subseteq> special" "\<not> sublist (entity a) t"
  shows "replace_all (entity a) [a] (concat (map (escs S) t)) = concat (map (escs (S - {a})) t)"
  using assms(3)
proof (induction t)
  case Nil
  then show ?case by simp
next
  case (Cons c t)
  from assms have a: "a \<in> special" by blast
  from Cons.prems have np: "\<not> prefix (entity a) (c # t)" and ns: "\<not> sublist (entity a) t"
    by (auto simp: sublist_Cons_right)
  note IH = Cons.IH [OF ns]
  let ?E = "concat (map (escs S) t)"
  let ?E' = "concat (map (escs (S - {a})) t)"
  have goal: "replace_all (entity a) [a] (escs S c @ ?E) = escs (S - {a}) c @ ?E'
    \<Longrightarrow> ?case" by simp
  consider (same) "c = a" | (other) "c \<in> S" "c \<noteq> a" | (amp) "c \<notin> S" "c = CHR ''&''"
    | (plain) "c \<notin> S" "c \<noteq> CHR ''&''" by blast
  then show ?case
  proof cases
    case same
    with assms(1) have c: "escs S c = entity a" "escs (S - {a}) c = [a]"
      by (simp_all add: escs_def)
    from entity_special [OF a] have "entity a \<noteq> []" by simp
    then have "replace_all (entity a) [a] (entity a @ ?E) = [a] @ replace_all (entity a) [a] ?E"
      by (rule replace_all_match)
    with IH c show ?thesis by (intro goal) simp
  next
    case other
    with assms(2) have cs: "c \<in> special" by blast
    from other have c: "escs S c = entity c" "escs (S - {a}) c = entity c"
      by (simp_all add: escs_def)
    from replace_other_entity [OF a cs other(2), of ?E] IH c show ?thesis
      by (intro goal) simp
  next
    case amp
    then have c: "escs S c = [c]" "escs (S - {a}) c = [c]"
      by (simp_all add: escs_def)
    obtain e where e: "entity a = CHR ''&'' # e" "set e \<inter> insert CHR ''&'' special = {}"
      using entity_special [OF a] by (cases "entity a") auto
    from np amp e have "\<not> prefix e t" by simp
    with prefix_escs [OF e(2) assms(2), of t] have "\<not> prefix (entity a) (c # ?E)"
      using e amp by simp
    then have "replace_all (entity a) [a] (c # ?E) = c # replace_all (entity a) [a] ?E"
      by simp
    with IH c show ?thesis by (intro goal) simp
  next
    case plain
    then have c: "escs S c = [c]" "escs (S - {a}) c = [c]"
      by (simp_all add: escs_def)
    from plain entity_special [OF a] have "\<not> prefix (entity a) (c # ?E)"
      by (cases "entity a") auto
    then have "replace_all (entity a) [a] (c # ?E) = c # replace_all (entity a) [a] ?E"
      by simp
    with IH c show ?thesis by (intro goal) simp
  qed
qed

lemma decode_escape:
  assumes "\<not> sublist ''&lt;'' t" "\<not> sublist ''&gt;'' t" "\<not> sublist ''&quot;'' t" "\<not> sublist ''&apos;'' t"
  shows "decodeHTML (escapeXML t) = t"
proof -
  have e: "entity CHR ''<'' = ''&lt;''" "entity CHR ''>'' = ''&gt;''"
    "entity CHR 0x22 = ''&quot;''" "entity CHR 0x27 = ''&apos;''"
    by (simp_all add: entity_def)
  have s: "special - {CHR ''<''} = {CHR ''>'', CHR 0x22, CHR 0x27}"
    "{CHR ''>'', CHR 0x22, CHR 0x27} - {CHR ''>''} = {CHR 0x22, CHR 0x27}"
    "{CHR 0x22, CHR 0x27} - {CHR 0x22} = {CHR 0x27}"
    "{CHR 0x27} - {CHR 0x27} = ({} :: char set)"
    by (auto simp: special_def)
  have 1: "replace_all ''&lt;'' ''<'' (concat (map (escs special) t)) =
           concat (map (escs {CHR ''>'', CHR 0x22, CHR 0x27}) t)"
    using unescape_step [of "CHR ''<''" special t] assms(1)
    unfolding e s by (simp add: special_def)
  have 2: "replace_all ''&gt;'' ''>'' (concat (map (escs {CHR ''>'', CHR 0x22, CHR 0x27}) t)) =
           concat (map (escs {CHR 0x22, CHR 0x27}) t)"
    using unescape_step [of "CHR ''>''" "{CHR ''>'', CHR 0x22, CHR 0x27}" t] assms(2)
    unfolding e s by (simp add: special_def)
  have 3: "replace_all ''&quot;'' [CHR 0x22] (concat (map (escs {CHR 0x22, CHR 0x27}) t)) =
           concat (map (escs {CHR 0x27}) t)"
    using unescape_step [of "CHR 0x22" "{CHR 0x22, CHR 0x27}" t] assms(3)
    unfolding e s by (simp add: special_def)
  have 4: "replace_all ''&apos;'' [CHR 0x27] (concat (map (escs {CHR 0x27}) t)) =
           concat (map (escs {}) t)"
    using unescape_step [of "CHR 0x27" "{CHR 0x27}" t] assms(4)
    unfolding e s by (simp add: special_def)
  have 5: "concat (map (escs {}) t) = t"
    by (induction t) (simp_all add: escs_def)
  show ?thesis
    unfolding decodeHTML_def escapeXML_concat unescape_amp 1 2 3 4 5 ..
qed

lemma escapeXML_tame: "CHR ''<'' \<notin> set (escapeXML s)"
  by (induction s) (auto simp: escapeXML_Cons escapeXML_Nil entity_def split: if_splits)

subsection \<open>Trimming\<close>

lemma trim_id: "trim s = s \<longleftrightarrow> s = [] \<or> (\<not> is_ws (hd s) \<and> \<not> is_ws (last s))"
proof (cases s)
  case Nil
  then show ?thesis by (simp add: trim_def)
next
  case (Cons a x)
  have len: "length (trim s) \<le> length (dropWhile is_ws s)"
    using length_dropWhile_le [of is_ws "rev (dropWhile is_ws s)"] by (simp add: trim_def)
  show ?thesis
  proof (cases "is_ws a")
    case True
    have "length (dropWhile is_ws s) \<le> length x"
      using True Cons length_dropWhile_le [of is_ws x] by simp
    with len have "length (trim s) < length s" using Cons by simp
    then have "trim s \<noteq> s" by auto
    with True Cons show ?thesis by simp
  next
    case False
    then have d: "dropWhile is_ws s = s" using Cons by simp
    from Cons have "s \<noteq> []" by simp
    then obtain ys y where snoc: "s = ys @ [y]"
      by (metis rev_exhaust)
    show ?thesis
    proof (cases "is_ws y")
      case True
      have "length (dropWhile is_ws (rev s)) \<le> length ys"
        using True snoc length_dropWhile_le [of is_ws "rev ys"] by simp
      then have "length (trim s) < length s" using snoc d by (simp add: trim_def)
      then have "trim s \<noteq> s" by auto
      with True snoc show ?thesis by simp
    next
      case n: False
      then have t: "trim s = s" using snoc d by (simp add: trim_def)
      from Cons have h: "hd s = a" by simp
      from snoc have l: "last s = y" by simp
      show ?thesis unfolding h l using t n False by simp
    qed
  qed
qed

lemma entity_ends:
  "entity c \<noteq> [] \<and> (is_ws (hd (entity c)) \<longleftrightarrow> is_ws c) \<and> (is_ws (last (entity c)) \<longleftrightarrow> is_ws c)"
  by (simp add: entity_def is_ws_def)

lemma escapeXML_eq_Nil: "escapeXML s = [] \<longleftrightarrow> s = []"
  using entity_ends by (cases s) (auto simp: escapeXML_Cons escapeXML_Nil)

lemma hd_escapeXML: "s \<noteq> [] \<Longrightarrow> is_ws (hd (escapeXML s)) \<longleftrightarrow> is_ws (hd s)"
  using entity_ends by (cases s) (auto simp: escapeXML_Cons)

lemma escapeXML_append: "escapeXML (a @ b) = escapeXML a @ escapeXML b"
  by (simp add: escapeXML_concat)

lemma last_escapeXML: "s \<noteq> [] \<Longrightarrow> is_ws (last (escapeXML s)) \<longleftrightarrow> is_ws (last s)"
proof -
  assume "s \<noteq> []"
  then obtain ys y where snoc: "s = ys @ [y]"
    by (metis rev_exhaust)
  have "escapeXML s = escapeXML ys @ entity y"
    by (simp add: snoc escapeXML_append escapeXML_Cons escapeXML_Nil)
  with entity_ends [of y] snoc show ?thesis by simp
qed

lemma trim_escapeXML: "trim s = s \<Longrightarrow> trim (escapeXML s) = escapeXML s"
  by (auto simp: trim_id hd_escapeXML last_escapeXML escapeXML_eq_Nil)

subsection \<open>The shape of a built item\<close>

lemma join_lines_Cons: "ls \<noteq> [] \<Longrightarrow> join_lines (l # ls) = l @ CHR 0x0A # join_lines ls"
  by (cases ls) auto

lemma join_lines_append:
  "xs \<noteq> [] \<Longrightarrow> ys \<noteq> [] \<Longrightarrow> join_lines (xs @ ys) = join_lines xs @ CHR 0x0A # join_lines ys"
proof (induction xs)
  case Nil
  then show ?case by simp
next
  case (Cons x xs)
  then show ?case by (cases xs) (auto simp: join_lines_Cons)
qed

lemma rest_lines_nonempty: "rest_lines item \<noteq> []"
  by (simp add: rest_lines_def)

lemma buildItem_lines_shape: "buildItem_lines item = ''<item>'' # mid_lines item @ [''</item>'']"
  by (simp add: buildItem_lines_def mid_lines_def rest_lines_def)

lemma buildItem_shape: "buildItem item = ''<item>'' @ item_inner item @ ''</item>''"
proof -
  have m: "mid_lines item \<noteq> []" by (simp add: mid_lines_def)
  show ?thesis
    unfolding buildItem_def buildItem_lines_shape item_inner_def
    using m by (simp add: join_lines_Cons join_lines_append)
qed

lemma mid_lines_join:
  "join_lines (mid_lines item) =
     ''<title>'' @ escapeXML (title item) @ ''</title>'' @ [CHR 0x0A] @
     ''<link>'' @ escapeXML (link item) @ ''</link>'' @ [CHR 0x0A] @
     ''<description><![CDATA['' @ description item @ '']]></description>'' @ [CHR 0x0A] @
     join_lines (rest_lines item)"
  using rest_lines_nonempty [of item] by (simp add: mid_lines_def join_lines_Cons)

lemma digit_not_lt: "k < 10 \<Longrightarrow> char_of (48 + k :: nat) \<noteq> CHR ''<''"
proof
  assume k: "k < 10" and "char_of (48 + k) = CHR ''<''"
  then have "(of_char (char_of (48 + k)) :: nat) = of_char CHR ''<''" by simp
  with k show False by simp
qed

lemma digit_not_lt': "k < 10 \<Longrightarrow> CHR ''<'' \<noteq> char_of (48 + k :: nat)"
  using digit_not_lt [of k] by auto

lemma nat_digits_tame: "CHR ''<'' \<notin> set (nat_digits n)"
proof (induction n rule: nat_digits.induct)
  case (1 n)
  show ?case
  proof (cases "n < 10")
    case True
    then show ?thesis by (subst nat_digits.simps) (simp add: digit_not_lt')
  next
    case False
    with 1 show ?thesis by (subst nat_digits.simps) (simp add: digit_not_lt')
  qed
qed

lemma num_to_string_tame: "CHR ''<'' \<notin> set (num_to_string n)"
  by (cases n) (auto simp: nat_digits_tame)

lemma padStart2_tame: "CHR ''<'' \<notin> set s \<Longrightarrow> CHR ''<'' \<notin> set (padStart2 s)"
  by (auto simp: padStart2_def)

lemma name_at_tame: "\<forall>n\<in>set names. CHR ''<'' \<notin> set n \<Longrightarrow> CHR ''<'' \<notin> set (name_at names j)"
  by (cases j) auto

lemma formatDate_tame: "CHR ''<'' \<notin> set (formatDate d)"
  unfolding formatDate_def Let_def
  by (simp add: padStart2_tame num_to_string_tame name_at_tame)

subsection \<open>Extraction from a built item\<close>

lemma lower_lit [simp]:
  "lower CHR '']'' = CHR '']''" "lower CHR ''>'' = CHR ''>''" "lower CHR ''/'' = CHR ''/''"
  "lower CHR ''['' = CHR ''[''" "lower CHR ''!'' = CHR ''!''" "lower CHR 0x0A = CHR 0x0A"
  by (simp_all add: lower_def)

lemma lower_rb [simp]: "lower c = CHR '']'' \<longleftrightarrow> c = CHR '']''" "CHR '']'' = lower c \<longleftrightarrow> c = CHR '']''"
  by (auto simp: lower_def)

lemma lower_gt [simp]: "lower c = CHR ''>'' \<longleftrightarrow> c = CHR ''>''" "CHR ''>'' = lower c \<longleftrightarrow> c = CHR ''>''"
  by (auto simp: lower_def)

lemma tag_at_not_lt: "c \<noteq> CHR ''<'' \<Longrightarrow> tag_at name (c # s) = None"
  by (simp add: tag_at_def)

lemma cdata_at_not_lt: "c \<noteq> CHR ''<'' \<Longrightarrow> cdata_at name (c # s) = None"
  by (simp add: cdata_at_def)

lemma exec_tame:
  assumes "\<And>c s. c \<noteq> CHR ''<'' \<Longrightarrow> m (c # s) = None" "CHR ''<'' \<notin> set x"
  shows "exec m (x @ c # s) = exec m (c # s)"
  using assms(2) by (induction x) (auto simp: assms(1))

lemma exec_tag_tame:
  "CHR ''<'' \<notin> set x \<Longrightarrow> exec (tag_at name) (x @ c # s) = exec (tag_at name) (c # s)"
  by (rule exec_tame) (auto simp: tag_at_not_lt)

lemma exec_cdata_tame:
  "CHR ''<'' \<notin> set x \<Longrightarrow> exec (cdata_at name) (x @ c # s) = exec (cdata_at name) (c # s)"
  by (rule exec_tame) (auto simp: cdata_at_not_lt)

lemma find_ci_tame_self:
  "CHR ''<'' \<notin> set x \<Longrightarrow> find_ci (CHR ''<'' # q) (x @ CHR ''<'' # q @ rest) = Some (x, rest)"
  using find_ci_self [of "CHR ''<'' # q" rest] by (simp add: find_ci_tame)

lemma find_cdata_end:
  "\<not> sublist '']]>'' d \<Longrightarrow> find_ci ('']]>'' @ q) (d @ '']]>'' @ q @ rest) = Some (d, rest)"
proof (induction d)
  case Nil
  show ?case using find_ci_self [of "'']]>'' @ q" rest] by simp
next
  case (Cons a d)
  from Cons.prems have np: "\<not> prefix '']]>'' (a # d)" and ns: "\<not> sublist '']]>'' d"
    by (auto simp: sublist_Cons_right)
  have "\<not> ci_prefix ('']]>'' @ q) (a # d @ '']]>'' @ q @ rest)"
  proof (cases d)
    case Nil
    then show ?thesis by simp
  next
    case c1: (Cons b d1)
    show ?thesis
    proof (cases d1)
      case Nil
      with c1 show ?thesis by simp
    next
      case (Cons c d2)
      with c1 np show ?thesis by auto
    qed
  qed
  with Cons.IH [OF ns] show ?case by simp
qed

lemma item_inner_unfold:
  "item_inner item =
     CHR 0x0A # ''<title>'' @ escapeXML (title item) @ ''</title>'' @ [CHR 0x0A] @
     ''<link>'' @ escapeXML (link item) @ ''</link>'' @ [CHR 0x0A] @
     ''<description><![CDATA['' @ description item @ '']]></description>'' @ [CHR 0x0A] @
     join_lines (rest_lines item) @ [CHR 0x0A]"
  by (simp add: item_inner_def mid_lines_join)

lemma exec_title_inner: "exec (tag_at ''title'') (item_inner item) = Some (escapeXML (title item))"
  unfolding item_inner_unfold
  by (simp add: tag_at_def skip_to_gt_def lower_def find_ci_tame escapeXML_tame)

lemma exec_link_inner: "exec (tag_at ''link'') (item_inner item) = Some (escapeXML (link item))"
  unfolding item_inner_unfold
  by (simp add: tag_at_def skip_to_gt_def lower_def find_ci_tame escapeXML_tame exec_tag_tame)

lemma exec_cdata_inner:
  assumes "\<not> sublist '']]>'' (description item)"
  shows "exec (cdata_at ''description'') (item_inner item) = Some (description item)"
proof -
  let ?rest = "CHR 0x0A # join_lines (rest_lines item) @ [CHR 0x0A]"
  have f: "find_ci '']]></description>'' (description item @ '']]></description>'' @ ?rest) =
           Some (description item, ?rest)"
    using find_cdata_end [OF assms, of "''</description>''" ?rest] by simp
  have c: "cdata_at ''description''
             (''<description><![CDATA['' @ description item @ '']]></description>'' @ ?rest) =
           Some (description item)"
    using f by (simp add: cdata_at_def skip_to_gt_def lower_def)
  have "exec (cdata_at ''description'') (item_inner item) =
        exec (cdata_at ''description'')
          (''<description><![CDATA['' @ description item @ '']]></description>'' @ ?rest)"
    unfolding item_inner_unfold
    by (simp add: cdata_at_def lower_def exec_cdata_tame escapeXML_tame)
  also have "\<dots> = Some (description item)"
    using c by simp
  finally show ?thesis .
qed

lemma rss_item_inner:
  assumes "round_trip_item item"
  shows "title (rss_item pd u t (item_inner item)) = title item"
    and "link (rss_item pd u t (item_inner item)) = link item"
    and "description (rss_item pd u t (item_inner item)) = description item"
proof -
  from assms have ne: "title item \<noteq> []" and pt: "plain_text (title item)"
    and pl: "plain_text (link item)" and cd: "cdata_text (description item)"
    by (simp_all add: round_trip_item_def)
  have dec: "decodeHTML (trim (escapeXML s)) = s" if "plain_text s" for s
    using that by (simp add: plain_text_def str_includes_sublist trim_escapeXML decode_escape)
  have t: "extractTag (item_inner item) ''title'' = Some (title item)"
    by (simp add: extractTag_def exec_title_inner dec [OF pt])
  have l: "extractTag (item_inner item) ''link'' = Some (link item)"
    by (simp add: extractTag_def exec_link_inner dec [OF pl])
  from cd have "extractCDATA (item_inner item) ''description'' = Some (description item)"
    by (simp add: extractCDATA_def exec_cdata_inner cdata_text_def str_includes_sublist)
  with cd have d: "js_or (extractCDATA (item_inner item) ''description'')
                         (extractTag (item_inner item) ''description'') = Some (description item)"
    by (simp add: js_or_def cdata_text_def)
  show "title (rss_item pd u t (item_inner item)) = title item"
    using t ne by (simp add: rss_item_def or_str_def)
  show "link (rss_item pd u t (item_inner item)) = link item"
    using l by (simp add: rss_item_def or_str_def)
  show "description (rss_item pd u t (item_inner item)) = description item"
    using d cd by (simp add: rss_item_def or_str_def cdata_text_def)
qed

subsection \<open>Lines without markers\<close>

lemmas calm_simps = calm_def scan escapeXML_tame formatDate_tame num_to_string_tame

lemma opt_elem_calm:
  assumes "name \<in> {''author'', ''category'', ''comments'', ''language'', ''copyright'',
                     ''managingEditor'', ''webMaster'', ''docs'', ''description''}"
      and "l \<in> set (opt_elem name v)"
  shows "calm l"
proof -
  from assms(2) obtain s where l: "l = ''<'' @ name @ ''>'' @ escapeXML s @ ''</'' @ name @ ''>''"
    by (auto simp: opt_elem_def split: option.splits if_splits)
  from assms(1) show ?thesis
    unfolding l by (elim insertE emptyE; simp add: calm_simps del: find_ci.simps)
qed

lemma opt_date_calm:
  assumes "name \<in> {''pubDate'', ''lastBuildDate''}" and "l \<in> set (opt_date name v)"
  shows "calm l"
proof -
  from assms(2) obtain d where l: "l = ''<'' @ name @ ''>'' @ formatDate d @ ''</'' @ name @ ''>''"
    by (auto simp: opt_date_def split: option.splits)
  from assms(1) show ?thesis
    unfolding l by (elim insertE emptyE; simp add: calm_simps del: find_ci.simps)
qed

lemma opt_num_calm:
  assumes "name \<in> {''ttl'', ''width'', ''height''}" and "l \<in> set (opt_num name v)"
  shows "calm l"
proof -
  from assms(2) obtain n where l: "l = ''<'' @ name @ ''>'' @ num_to_string n @ ''</'' @ name @ ''>''"
    by (auto simp: opt_num_def split: option.splits if_splits)
  from assms(1) show ?thesis
    unfolding l by (elim insertE emptyE; simp add: calm_simps del: find_ci.simps)
qed

lemma enclosure_calm: "l \<in> set (enclosure_lines e) \<Longrightarrow> calm l"
  by (cases e) (simp_all add: enclosure_lines_def calm_simps del: find_ci.simps)

lemma source_calm: "l \<in> set (source_lines e) \<Longrightarrow> calm l"
  by (cases e) (simp_all add: source_lines_def calm_simps del: find_ci.simps)

lemma guid_line_shape:
  "guid_line item = guid_text ''true'' (link item) \<or> (\<exists>g. guid_line item = guid_text ''false'' g)"
  by (cases "guid item") (auto simp: guid_line_def guid_text_def)

lemma guid_text_calm: "calm (guid_text ''true'' x)" "calm (guid_text ''false'' x)"
  by (simp_all add: guid_text_def calm_simps del: find_ci.simps)

lemma guid_calm: "calm (guid_line item)"
proof -
  have "guid_line item = guid_text ''true'' (link item) \<or> (\<exists>g. guid_line item = guid_text ''false'' g)"
    by (rule guid_line_shape)
  then show ?thesis
  proof (elim disjE exE)
    assume e: "guid_line item = guid_text ''true'' (link item)"
    show ?thesis unfolding e by (rule guid_text_calm)
  next
    fix g
    assume e: "guid_line item = guid_text ''false'' g"
    show ?thesis unfolding e by (rule guid_text_calm)
  qed
qed

lemma rest_lines_calm:
  assumes "l \<in> set (rest_lines item)"
  shows "calm l"
proof -
  from assms consider
      (author) "l \<in> set (opt_elem ''author'' (author item))"
    | (category) "l \<in> set (opt_elem ''category'' (category item))"
    | (comments) "l \<in> set (opt_elem ''comments'' (comments item))"
    | (enclosure) "l \<in> set (enclosure_lines (enclosure item))"
    | (guid) "l = guid_line item"
    | (pubDate) "l \<in> set (opt_date ''pubDate'' (pubDate item))"
    | (source) "l \<in> set (source_lines (source item))"
    unfolding rest_lines_def by auto
  then show ?thesis
  proof cases
    case author
    then show ?thesis by (rule opt_elem_calm [rotated]) simp
  next
    case category
    then show ?thesis by (rule opt_elem_calm [rotated]) simp
  next
    case comments
    then show ?thesis by (rule opt_elem_calm [rotated]) simp
  next
    case enclosure
    then show ?thesis by (rule enclosure_calm)
  next
    case guid
    then show ?thesis by (simp add: guid_calm)
  next
    case pubDate
    then show ?thesis by (rule opt_date_calm [rotated]) simp
  next
    case source
    then show ?thesis by (rule source_calm)
  qed
qed

lemma opt_elem_calm_all:
  "name \<in> {''author'', ''category'', ''comments'', ''language'', ''copyright'',
             ''managingEditor'', ''webMaster'', ''docs'', ''description''} \<Longrightarrow>
   list_all calm (opt_elem name v)"
  unfolding list_all_iff using opt_elem_calm by blast

lemma opt_date_calm_all:
  "name \<in> {''pubDate'', ''lastBuildDate''} \<Longrightarrow> list_all calm (opt_date name v)"
  unfolding list_all_iff using opt_date_calm by blast

lemma opt_num_calm_all:
  "name \<in> {''ttl'', ''width'', ''height''} \<Longrightarrow> list_all calm (opt_num name v)"
  unfolding list_all_iff using opt_num_calm by blast

lemma image_lines_calm: "list_all calm (image_lines im)"
proof (cases im)
  case None
  then show ?thesis by (simp add: image_lines_def)
next
  case (Some img)
  have fixed: "calm ''<image>''" "calm (''<url>'' @ escapeXML (img_url img) @ ''</url>'')"
    "calm (''<title>'' @ escapeXML (img_title img) @ ''</title>'')"
    "calm (''<link>'' @ escapeXML (img_link img) @ ''</link>'')" "calm ''</image>''"
    by (simp_all add: calm_simps del: find_ci.simps)
  have opt: "list_all calm (opt_num ''width'' (img_width img))"
    "list_all calm (opt_num ''height'' (img_height img))"
    "list_all calm (opt_elem ''description'' (img_description img))"
    by (simp_all add: opt_num_calm_all opt_elem_calm_all)
  show ?thesis
    unfolding image_lines_def Some option.case
    by (simp only: list_all_append list.pred_inject fixed opt simp_thms)
qed

lemma channel_lines_calm: "list_all calm (channel_lines config)"
proof -
  have fixed:
    "calm (''<?xml version='' @ [CHR 0x22] @ ''1.0'' @ [CHR 0x22] @ '' encoding='' @ [CHR 0x22] @ ''UTF-8'' @ [CHR 0x22] @ ''?>'')"
    "calm (''<rss version='' @ [CHR 0x22] @ ''2.0'' @ [CHR 0x22] @
        '' xmlns:atom='' @ [CHR 0x22] @ ''http://www.w3.org/2005/Atom'' @ [CHR 0x22] @
        '' xmlns:content='' @ [CHR 0x22] @ ''http://purl.org/rss/1.0/modules/content/'' @ [CHR 0x22] @ ''>'')"
    "calm ''<channel>''"
    "calm (''<title>'' @ escapeXML (cfg_title config) @ ''</title>'')"
    "calm (''<link>'' @ escapeXML (cfg_link config) @ ''</link>'')"
    "calm (''<description>'' @ escapeXML (cfg_description config) @ ''</description>'')"
    "calm (''<generator>'' @
        escapeXML (or_str (cfg_generator config) ''RSS Feed Generator for Cloudflare Workers'') @
      ''</generator>'')"
    "calm (''<atom:link href='' @ [CHR 0x22] @ escapeXML (cfg_link config) @ ''/rss'' @ [CHR 0x22] @
      '' rel='' @ [CHR 0x22] @ ''self'' @ [CHR 0x22] @
      '' type='' @ [CHR 0x22] @ ''application/rss+xml'' @ [CHR 0x22] @ '' />'')"
    by (simp_all add: calm_simps del: find_ci.simps)
  have opt: "list_all calm (opt_elem ''language'' (cfg_language config))"
    "list_all calm (opt_elem ''copyright'' (cfg_copyright config))"
    "list_all calm (opt_elem ''managingEditor'' (cfg_managingEditor config))"
    "list_all calm (opt_elem ''webMaster'' (cfg_webMaster config))"
    "list_all calm (opt_date ''pubDate'' (cfg_pubDate config))"
    "list_all calm (opt_date ''lastBuildDate'' (cfg_lastBuildDate config))"
    "list_all calm (opt_elem ''category'' (cfg_category config))"
    "list_all calm (opt_elem ''docs'' (cfg_docs config))"
    "list_all calm (opt_num ''ttl'' (cfg_ttl config))"
    by (simp_all add: opt_num_calm_all opt_elem_calm_all opt_date_calm_all)
  show ?thesis
    unfolding channel_lines_def
    by (simp only: list_all_append list.pred_inject fixed opt image_lines_calm simp_thms)
qed

lemma find_ci_join:
  assumes "pat \<noteq> []" "lower CHR 0x0A \<notin> lower ` set pat"
  shows "list_all (\<lambda>l. find_ci pat l = None) ls \<Longrightarrow> find_ci pat (join_lines ls) = None"
proof (induction ls rule: join_lines.induct)
  case 1
  from assms(1) show ?case by simp
next
  case (2 l)
  then show ?case by simp
next
  case (3 l v va)
  then have "find_ci pat l = None" "find_ci pat (join_lines (v # va)) = None" by simp_all
  then have "find_ci pat (l @ CHR 0x0A # join_lines (v # va)) = None"
    using assms(2) by (intro find_ci_foreign_None)
  then show ?case by simp
qed

lemma find_ci_join_close: "list_all (\<lambda>l. find_ci ''</item>'' l = None) ls \<Longrightarrow> find_ci ''</item>'' (join_lines ls) = None"
  by (rule find_ci_join) (simp_all add: lower_lits)

lemma find_ci_join_open: "list_all (\<lambda>l. find_ci ''<item>'' l = None) ls \<Longrightarrow> find_ci ''<item>'' (join_lines ls) = None"
  by (rule find_ci_join) (simp_all add: lower_lits)

lemma find_ci_join_feed: "list_all (\<lambda>l. find_ci ''<feed'' l = None) ls \<Longrightarrow> find_ci ''<feed'' (join_lines ls) = None"
  by (rule find_ci_join) (simp_all add: lower_lits)

lemma desc_line_end:
  assumes "P \<in> {''</item>'', ''<feed''}" "find_ci P d = None"
  shows "find_ci P (d @ '']]></description>'') = None"
proof -
  from assms(1) have f: "lower CHR '']'' \<notin> lower ` set P"
    by (elim insertE emptyE; simp add: lower_lits)
  from assms(1) have r: "find_ci P '']></description>'' = None"
    by (elim insertE emptyE; simp add: scan del: find_ci.simps)
  from find_ci_foreign_None [OF assms(2) f r] show ?thesis by simp
qed

lemma desc_line_quiet:
  assumes "P \<in> {''</item>'', ''<feed''}" "find_ci P d = None"
  shows "find_ci P (''<description><![CDATA['' @ d @ '']]></description>'') = None"
  using assms(1) desc_line_end [OF assms]
  by (elim insertE emptyE; simp add: scan del: find_ci.simps)

lemma calm_imp:
  "list_all calm ls \<Longrightarrow> list_all (\<lambda>l. find_ci ''</item>'' l = None) ls"
  "list_all calm ls \<Longrightarrow> list_all (\<lambda>l. find_ci ''<item>'' l = None) ls"
  "list_all calm ls \<Longrightarrow> list_all (\<lambda>l. find_ci ''<feed'' l = None) ls"
  by (simp_all add: list_all_iff calm_def)

lemma rest_lines_calm_all: "list_all calm (rest_lines item)"
  by (simp add: list_all_iff rest_lines_calm)

lemma mid_lines_quiet_gen:
  assumes "find_ci P (''<title>'' @ escapeXML (title item) @ ''</title>'') = None"
    "find_ci P (''<link>'' @ escapeXML (link item) @ ''</link>'') = None"
    "find_ci P (''<description><![CDATA['' @ description item @ '']]></description>'') = None"
    "list_all (\<lambda>l. find_ci P l = None) (rest_lines item)"
  shows "list_all (\<lambda>l. find_ci P l = None) (mid_lines item)"
  unfolding mid_lines_def
  by (simp only: list_all_append list.pred_inject assms simp_thms)

lemma mid_lines_quiet_close:
  assumes "cdata_text (description item)"
  shows "list_all (\<lambda>l. find_ci ''</item>'' l = None) (mid_lines item)"
proof (rule mid_lines_quiet_gen)
  show "find_ci ''</item>'' (''<title>'' @ escapeXML (title item) @ ''</title>'') = None"
    by (simp add: scan escapeXML_tame del: find_ci.simps)
  show "find_ci ''</item>'' (''<link>'' @ escapeXML (link item) @ ''</link>'') = None"
    by (simp add: scan escapeXML_tame del: find_ci.simps)
  from assms have "find_ci ''</item>'' (description item) = None"
    by (simp add: cdata_text_def)
  then show "find_ci ''</item>'' (''<description><![CDATA['' @ description item @ '']]></description>'') = None"
    by (intro desc_line_quiet) simp_all
  show "list_all (\<lambda>l. find_ci ''</item>'' l = None) (rest_lines item)"
    by (rule calm_imp) (rule rest_lines_calm_all)
qed

lemma mid_lines_quiet_feed:
  assumes "cdata_text (description item)"
  shows "list_all (\<lambda>l. find_ci ''<feed'' l = None) (mid_lines item)"
proof (rule mid_lines_quiet_gen)
  show "find_ci ''<feed'' (''<title>'' @ escapeXML (title item) @ ''</title>'') = None"
    by (simp add: scan escapeXML_tame del: find_ci.simps)
  show "find_ci ''<feed'' (''<link>'' @ escapeXML (link item) @ ''</link>'') = None"
    by (simp add: scan escapeXML_tame del: find_ci.simps)
  from assms have "find_ci ''<feed'' (description item) = None"
    by (simp add: cdata_text_def)
  then show "find_ci ''<feed'' (''<description><![CDATA['' @ description item @ '']]></description>'') = None"
    by (intro desc_line_quiet) simp_all
  show "list_all (\<lambda>l. find_ci ''<feed'' l = None) (rest_lines item)"
    by (rule calm_imp) (rule rest_lines_calm_all)
qed

lemma find_close_inner:
  assumes "cdata_text (description item)"
  shows "find_ci ''</item>'' (item_inner item @ ''</item>'' @ rest) = Some (item_inner item, rest)"
proof -
  let ?X = "CHR 0x0A # join_lines (mid_lines item)"
  have "find_ci ''</item>'' (join_lines (mid_lines item)) = None"
    by (rule find_ci_join_close) (rule mid_lines_quiet_close [OF assms])
  then have x: "find_ci ''</item>'' ?X = None"
    by (simp add: lower_lits)
  have f: "lower CHR 0x0A \<notin> lower ` set ''</item>''"
    by (simp add: lower_lits)
  have "find_ci ''</item>'' (CHR 0x0A # ''</item>'' @ rest) = Some ([CHR 0x0A], rest)"
    using find_ci_self [of "''</item>''" rest] by (simp add: lower_lits)
  with find_ci_foreign [OF x f, of "''</item>'' @ rest"]
  have "find_ci ''</item>'' (?X @ CHR 0x0A # ''</item>'' @ rest) = Some (?X @ [CHR 0x0A], rest)"
    by simp
  then show ?thesis by (simp add: item_inner_def)
qed

lemma buildItem_no_feed:
  assumes "cdata_text (description item)"
  shows "find_ci ''<feed'' (buildItem item) = None"
proof -
  have "list_all (\<lambda>l. find_ci ''<feed'' l = None) (buildItem_lines item)"
    unfolding buildItem_lines_shape
    using mid_lines_quiet_feed [OF assms]
    by (simp add: scan del: find_ci.simps)
  then show ?thesis
    unfolding buildItem_def by (rule find_ci_join_feed)
qed

lemma prefix_ci_prefix: "prefix pat s \<Longrightarrow> ci_prefix pat s"
  by (induction pat s rule: ci_prefix.induct) auto

lemma str_includes_find_ci: "str_includes s pat \<Longrightarrow> find_ci pat s \<noteq> None"
  by (induction s) (auto simp: prefix_ci_prefix)

lemma build_not_atom:
  assumes "list_all round_trip_item items"
  shows "\<not> isAtom (build config items)"
proof -
  have i: "list_all (\<lambda>l. find_ci ''<feed'' l = None) (map buildItem items)"
    using assms by (simp add: list_all_iff round_trip_item_def buildItem_no_feed)
  have "list_all (\<lambda>l. find_ci ''<feed'' l = None)
          (channel_lines config @ map buildItem items @ [''</channel>'', ''</rss>''])"
    using i calm_imp(3) [OF channel_lines_calm, of config]
    by (simp add: scan del: find_ci.simps)
  then have "find_ci ''<feed'' (build config items) = None"
    unfolding build_def by (rule find_ci_join_feed)
  then show ?thesis
    using str_includes_find_ci [of "build config items" "''<feed''"] by (auto simp: isAtom_def)
qed

subsection \<open>The item scan over a built document\<close>

lemma exec_skip_block:
  assumes "find_ci opn x = None" "lower c \<notin> lower ` set opn"
  shows "exec (block_at opn cls) (x @ c # t) = exec (block_at opn cls) t"
  using assms(1)
proof (induction x)
  case Nil
  from assms(2) find_ci_None_nonempty [OF assms(1)] have "\<not> ci_prefix opn (c # t)"
    by (cases opn) auto
  then show ?case by (simp add: block_at_def)
next
  case (Cons a x)
  from Cons.prems have n: "\<not> ci_prefix opn (a # x)" and f: "find_ci opn x = None"
    by (auto split: if_splits)
  from n have "\<not> ci_prefix opn ((a # x) @ c # t)"
    by (simp only: ci_prefix_foreign [OF assms(2)] not_False_eq_True)
  then have "block_at opn cls (a # x @ c # t) = None"
    by (simp add: block_at_def)
  with Cons.IH [OF f] show ?case by simp
qed

lemma item_spans_cong:
  "exec (block_at ''<item>'' ''</item>'') s = exec (block_at ''<item>'' ''</item>'') s' \<Longrightarrow>
   item_spans s = item_spans s'"
  by (subst item_spans.simps, subst (2) item_spans.simps) simp

lemma item_spans_footer: "item_spans (join_lines [''</channel>'', ''</rss>'']) = []"
  by (subst item_spans.simps) (simp add: block_at_def lower_lits)

lemma item_spans_newline: "item_spans (CHR 0x0A # s) = item_spans s"
  by (rule item_spans_cong) (simp add: block_at_def lower_lits)

lemma item_spans_built:
  assumes "cdata_text (description item)"
  shows "item_spans (buildItem item @ CHR 0x0A # s) = item_inner item # item_spans s"
proof -
  have "block_at ''<item>'' ''</item>'' (''<item>'' @ item_inner item @ ''</item>'' @ CHR 0x0A # s) =
        Some (item_inner item, CHR 0x0A # s)"
    using find_close_inner [OF assms, of "CHR 0x0A # s"]
    by (simp add: block_at_def lower_lits)
  then have "exec (block_at ''<item>'' ''</item>'') (buildItem item @ CHR 0x0A # s) =
             Some (item_inner item, CHR 0x0A # s)"
    by (simp add: buildItem_shape)
  then show ?thesis
    by (subst item_spans.simps) (simp add: item_spans_newline)
qed

lemma item_spans_items:
  "list_all round_trip_item items \<Longrightarrow>
   item_spans (join_lines (map buildItem items @ [''</channel>'', ''</rss>''])) = map item_inner items"
proof (induction items)
  case Nil
  show ?case using item_spans_footer by simp
next
  case (Cons item items)
  then have c: "cdata_text (description item)" by (simp add: round_trip_item_def)
  have "join_lines (map buildItem (item # items) @ [''</channel>'', ''</rss>'']) =
        buildItem item @ CHR 0x0A # join_lines (map buildItem items @ [''</channel>'', ''</rss>''])"
    by (simp add: join_lines_Cons)
  with Cons item_spans_built [OF c] show ?case by simp
qed

lemma item_spans_build:
  assumes "list_all round_trip_item items"
  shows "item_spans (build config items) = map item_inner items"
proof -
  let ?T = "join_lines (map buildItem items @ [''</channel>'', ''</rss>''])"
  have ne: "channel_lines config \<noteq> []" by (simp add: channel_lines_def)
  have b: "build config items = join_lines (channel_lines config) @ CHR 0x0A # ?T"
    unfolding build_def using ne by (simp add: join_lines_append)
  have "find_ci ''<item>'' (join_lines (channel_lines config)) = None"
    by (rule find_ci_join_open) (rule calm_imp, rule channel_lines_calm)
  then have "exec (block_at ''<item>'' ''</item>'') (build config items) =
             exec (block_at ''<item>'' ''</item>'') ?T"
    unfolding b by (rule exec_skip_block) (simp add: lower_lits)
  then have "item_spans (build config items) = item_spans ?T"
    by (rule item_spans_cong)
  with item_spans_items [OF assms] show ?thesis by simp
qed

subsection \<open>The round trip\<close>

text \<open>
  C5 (as amended). For every configuration and every list of items whose titles are
  non-empty, whose titles and links have no white space at either end and contain none of
  the texts \<open>&lt;\<close>, \<open>&gt;\<close>, \<open>&quot;\<close>, \<open>&apos;\<close>, and whose descriptions are non-empty, have no
  white space at either end and contain neither \<open>]]>\<close> nor, in any letter case, \<open></item>\<close> or
  \<open><feed\<close>: parsing the built document gives back the same titles, links and descriptions.
  Titles and links may contain the five XML metacharacters, descriptions any other markup.
\<close>

theorem build_parse_round_trip:
  assumes "list_all round_trip_item items"
  shows "map fields (parse pd (build config items) u t) = map fields items"
proof -
  have "parse pd (build config items) u t = map (rss_item pd u t) (map item_inner items)"
    using build_not_atom [OF assms] item_spans_build [OF assms]
    by (simp add: parse_def parseRSS_def)
  moreover have "fields (rss_item pd u t (item_inner item)) = fields item"
    if "item \<in> set items" for item
  proof -
    from that assms have "round_trip_item item" by (simp add: list_all_iff)
    from rss_item_inner [OF this] show ?thesis by (simp add: fields_def)
  qed
  ultimately show ?thesis by simp
qed

theorem build_parse_round_trip_witness:
  "list_all round_trip_item
     [plain_item (''Q&A <1>'' @ [CHR 0x22, CHR 0x27]) ''http://x/?a=1&b=2''
        (''<p>Tom &amp; Jerry: <b>best</b> '' @ [CHR 0x22, CHR 0x27] @ ''</p>'')] \<and>
   map fields (parse sample_pd (build sample_config
     [plain_item (''Q&A <1>'' @ [CHR 0x22, CHR 0x27]) ''http://x/?a=1&b=2''
        (''<p>Tom &amp; Jerry: <b>best</b> '' @ [CHR 0x22, CHR 0x27] @ ''</p>'')]) ''u'' None) =
   [(''Q&A <1>'' @ [CHR 0x22, CHR 0x27], ''http://x/?a=1&b=2'',
     ''<p>Tom &amp; Jerry: <b>best</b> '' @ [CHR 0x22, CHR 0x27] @ ''</p>'')]"
proof -
  let ?items = "[plain_item (''Q&A <1>'' @ [CHR 0x22, CHR 0x27]) ''http://x/?a=1&b=2''
        (''<p>Tom &amp; Jerry: <b>best</b> '' @ [CHR 0x22, CHR 0x27] @ ''</p>'')]"
  have h: "list_all round_trip_item ?items"
    by code_simp
  from build_parse_round_trip [OF h, of sample_pd sample_config "''u''" None]
  have "map fields (parse sample_pd (build sample_config ?items) ''u'' None) = map fields ?items" .
  then have "map fields (parse sample_pd (build sample_config ?items) ''u'' None) =
    [(''Q&A <1>'' @ [CHR 0x22, CHR 0x27], ''http://x/?a=1&b=2'',
     ''<p>Tom &amp; Jerry: <b>best</b> '' @ [CHR 0x22, CHR 0x27] @ ''</p>'')]"
    by (simp add: fields_def plain_item_def)
  with h show ?thesis by blast
qed

text \<open>
  C5 (as stated) fails: the parser trims what it extracts, so a description that starts
  with white space does not come back byte for byte.
\<close>

theorem round_trip_trims:
  "map fields (parse sample_pd (build sample_config [plain_item ''t'' ''l'' '' <p>x</p>'']) ''u'' None) =
   [(''t'', ''l'', ''<p>x</p>'')]"
  by code_simp

section \<open>The guid element in the emitted text\<close>

subsection \<open>Counting occurrences\<close>

lemma count_not_lt:
  "c \<noteq> CHR ''<'' \<Longrightarrow> count_sub (CHR ''<'' # q) (c # cs) = count_sub (CHR ''<'' # q) cs"
  by simp

lemma count_at_lt:
  "count_sub (CHR ''<'' # q) (CHR ''<'' # cs) =
     (if prefix q cs then 1 else 0) + count_sub (CHR ''<'' # q) cs"
  by simp

lemma count_lt_Nil: "count_sub (CHR ''<'' # q) [] = 0"
  by simp

lemma count_tame:
  "CHR ''<'' \<notin> set x \<Longrightarrow> count_sub (CHR ''<'' # q) (x @ rest) = count_sub (CHR ''<'' # q) rest"
  by (induction x) auto

lemmas count_scan = count_not_lt count_at_lt count_lt_Nil count_tame
  escapeXML_tame formatDate_tame num_to_string_tame

lemma prefix_foreign: "c \<notin> set pat \<Longrightarrow> prefix pat (r @ c # t) = prefix pat r"
proof (induction pat arbitrary: r)
  case Nil
  then show ?case by simp
next
  case (Cons p ps)
  then show ?case by (cases r) auto
qed

lemma count_foreign:
  "c \<notin> set pat \<Longrightarrow> count_sub pat (x @ c # t) = count_sub pat x + count_sub pat (c # t)"
proof (induction x)
  case Nil
  then show ?case by simp
next
  case (Cons a x)
  from Cons.prems have "prefix pat ((a # x) @ c # t) = prefix pat (a # x)"
    by (rule prefix_foreign)
  with Cons show ?case by simp
qed

lemma count_join:
  assumes "pat \<noteq> []" "CHR 0x0A \<notin> set pat"
  shows "count_sub pat (join_lines ls) = sum_list (map (count_sub pat) ls)"
proof (induction ls rule: join_lines.induct)
  case 1
  show ?case by simp
next
  case (2 l)
  show ?case by simp
next
  case (3 l v va)
  from assms have "\<not> prefix pat (CHR 0x0A # join_lines (v # va))"
    by (cases pat) auto
  then have "count_sub pat (CHR 0x0A # join_lines (v # va)) = count_sub pat (join_lines (v # va))"
    by simp
  with 3 count_foreign [OF assms(2), of l "join_lines (v # va)"] show ?case by simp
qed

lemma count_zero: "pat \<noteq> [] \<Longrightarrow> count_sub pat s = 0 \<longleftrightarrow> \<not> str_includes s pat"
  by (induction s) auto

lemma sum_list_zero: "list_all (\<lambda>l. f l = (0::nat)) ls \<Longrightarrow> sum_list (map f ls) = 0"
  by (induction ls) auto

subsection \<open>Occurrences of the guid tag in a built item and a built document\<close>

lemma opt_elem_no_guid:
  assumes "name \<in> {''author'', ''category'', ''comments'', ''language'', ''copyright'',
                     ''managingEditor'', ''webMaster'', ''docs'', ''description''}"
  shows "list_all (\<lambda>l. count_sub ''<guid'' l = 0) (opt_elem name v)"
proof -
  have "count_sub ''<guid'' (''<'' @ name @ ''>'' @ escapeXML s @ ''</'' @ name @ ''>'') = 0" for s
    using assms by (elim insertE emptyE; simp add: count_scan del: count_sub.simps)
  then show ?thesis
    by (simp add: opt_elem_def split: option.splits)
qed

lemma opt_date_no_guid:
  assumes "name \<in> {''pubDate'', ''lastBuildDate''}"
  shows "list_all (\<lambda>l. count_sub ''<guid'' l = 0) (opt_date name v)"
proof -
  have "count_sub ''<guid'' (''<'' @ name @ ''>'' @ formatDate d @ ''</'' @ name @ ''>'') = 0" for d
    using assms by (elim insertE emptyE; simp add: count_scan del: count_sub.simps)
  then show ?thesis
    by (simp add: opt_date_def split: option.splits)
qed

lemma opt_num_no_guid:
  assumes "name \<in> {''ttl'', ''width'', ''height''}"
  shows "list_all (\<lambda>l. count_sub ''<guid'' l = 0) (opt_num name v)"
proof -
  have "count_sub ''<guid'' (''<'' @ name @ ''>'' @ num_to_string n @ ''</'' @ name @ ''>'') = 0" for n
    using assms by (elim insertE emptyE; simp add: count_scan del: count_sub.simps)
  then show ?thesis
    by (simp add: opt_num_def split: option.splits)
qed

lemma enclosure_no_guid: "list_all (\<lambda>l. count_sub ''<guid'' l = 0) (enclosure_lines e)"
  by (cases e) (simp_all add: enclosure_lines_def count_scan del: count_sub.simps)

lemma source_no_guid: "list_all (\<lambda>l. count_sub ''<guid'' l = 0) (source_lines e)"
  by (cases e) (simp_all add: source_lines_def count_scan del: count_sub.simps)

lemma guid_text_count:
  "count_sub ''<guid'' (guid_text ''true'' x) = 1" "count_sub ''<guid'' (guid_text ''false'' x) = 1"
  by (simp_all add: guid_text_def count_scan del: count_sub.simps)

lemma guid_line_count: "count_sub ''<guid'' (guid_line item) = 1"
proof -
  have "guid_line item = guid_text ''true'' (link item) \<or> (\<exists>g. guid_line item = guid_text ''false'' g)"
    by (rule guid_line_shape)
  then show ?thesis
  proof (elim disjE exE)
    assume e: "guid_line item = guid_text ''true'' (link item)"
    show ?thesis unfolding e by (rule guid_text_count)
  next
    fix g
    assume e: "guid_line item = guid_text ''false'' g"
    show ?thesis unfolding e by (rule guid_text_count)
  qed
qed

lemma rest_lines_count: "sum_list (map (count_sub ''<guid'') (rest_lines item)) = 1"
proof -
  have z: "sum_list (map (count_sub ''<guid'') (opt_elem ''author'' (author item))) = 0"
    "sum_list (map (count_sub ''<guid'') (opt_elem ''category'' (category item))) = 0"
    "sum_list (map (count_sub ''<guid'') (opt_elem ''comments'' (comments item))) = 0"
    "sum_list (map (count_sub ''<guid'') (enclosure_lines (enclosure item))) = 0"
    "sum_list (map (count_sub ''<guid'') (opt_date ''pubDate'' (pubDate item))) = 0"
    "sum_list (map (count_sub ''<guid'') (source_lines (source item))) = 0"
    by (rule sum_list_zero, simp add: opt_elem_no_guid opt_date_no_guid enclosure_no_guid
        source_no_guid)+
  show ?thesis
    unfolding rest_lines_def
    by (simp only: map_append sum_list_append list.map sum_list.Cons sum_list.Nil z guid_line_count)
qed

lemma desc_line_count:
  assumes "\<not> str_includes d ''<guid''"
  shows "count_sub ''<guid'' (''<description><![CDATA['' @ d @ '']]></description>'') = 0"
proof -
  from assms have "count_sub ''<guid'' d = 0" by (simp add: count_zero)
  moreover have "count_sub ''<guid'' (CHR '']'' # '']></description>'') = 0"
    by (simp add: count_scan del: count_sub.simps)
  ultimately have "count_sub ''<guid'' (d @ CHR '']'' # '']></description>'') = 0"
    using count_foreign [of "CHR '']''" "''<guid''" d "'']></description>''"] by simp
  then show ?thesis
    by (simp add: count_scan del: count_sub.simps)
qed

lemma buildItem_count:
  assumes "guid_free item"
  shows "count_sub ''<guid'' (buildItem item) = 1"
proof -
  have t: "count_sub ''<guid'' ''<item>'' = 0" "count_sub ''<guid'' ''</item>'' = 0"
    "count_sub ''<guid'' (''<title>'' @ escapeXML (title item) @ ''</title>'') = 0"
    "count_sub ''<guid'' (''<link>'' @ escapeXML (link item) @ ''</link>'') = 0"
    by (simp_all add: count_scan del: count_sub.simps)
  from assms have d: "count_sub ''<guid''
      (''<description><![CDATA['' @ description item @ '']]></description>'') = 0"
    by (intro desc_line_count) (simp add: guid_free_def)
  have "sum_list (map (count_sub ''<guid'') (buildItem_lines item)) = 1"
    unfolding buildItem_lines_shape mid_lines_def
    by (simp only: map_append sum_list_append list.map sum_list.Cons sum_list.Nil t d
        rest_lines_count)
  then show ?thesis
    unfolding buildItem_def by (simp add: count_join)
qed

lemma image_lines_no_guid: "list_all (\<lambda>l. count_sub ''<guid'' l = 0) (image_lines im)"
proof (cases im)
  case None
  then show ?thesis by (simp add: image_lines_def)
next
  case (Some img)
  have fixed: "count_sub ''<guid'' ''<image>'' = 0"
    "count_sub ''<guid'' (''<url>'' @ escapeXML (img_url img) @ ''</url>'') = 0"
    "count_sub ''<guid'' (''<title>'' @ escapeXML (img_title img) @ ''</title>'') = 0"
    "count_sub ''<guid'' (''<link>'' @ escapeXML (img_link img) @ ''</link>'') = 0"
    "count_sub ''<guid'' ''</image>'' = 0"
    by (simp_all add: count_scan del: count_sub.simps)
  have opt: "list_all (\<lambda>l. count_sub ''<guid'' l = 0) (opt_num ''width'' (img_width img))"
    "list_all (\<lambda>l. count_sub ''<guid'' l = 0) (opt_num ''height'' (img_height img))"
    "list_all (\<lambda>l. count_sub ''<guid'' l = 0) (opt_elem ''description'' (img_description img))"
    by (simp_all add: opt_num_no_guid opt_elem_no_guid)
  show ?thesis
    unfolding image_lines_def Some option.case
    by (simp only: list_all_append list.pred_inject fixed opt simp_thms)
qed

lemma channel_lines_no_guid: "list_all (\<lambda>l. count_sub ''<guid'' l = 0) (channel_lines config)"
proof -
  have fixed:
    "count_sub ''<guid'' (''<?xml version='' @ [CHR 0x22] @ ''1.0'' @ [CHR 0x22] @ '' encoding='' @ [CHR 0x22] @ ''UTF-8'' @ [CHR 0x22] @ ''?>'') = 0"
    "count_sub ''<guid'' (''<rss version='' @ [CHR 0x22] @ ''2.0'' @ [CHR 0x22] @
        '' xmlns:atom='' @ [CHR 0x22] @ ''http://www.w3.org/2005/Atom'' @ [CHR 0x22] @
        '' xmlns:content='' @ [CHR 0x22] @ ''http://purl.org/rss/1.0/modules/content/'' @ [CHR 0x22] @ ''>'') = 0"
    "count_sub ''<guid'' ''<channel>'' = 0"
    "count_sub ''<guid'' (''<title>'' @ escapeXML (cfg_title config) @ ''</title>'') = 0"
    "count_sub ''<guid'' (''<link>'' @ escapeXML (cfg_link config) @ ''</link>'') = 0"
    "count_sub ''<guid'' (''<description>'' @ escapeXML (cfg_description config) @ ''</description>'') = 0"
    "count_sub ''<guid'' (''<generator>'' @
        escapeXML (or_str (cfg_generator config) ''RSS Feed Generator for Cloudflare Workers'') @
      ''</generator>'') = 0"
    "count_sub ''<guid'' (''<atom:link href='' @ [CHR 0x22] @ escapeXML (cfg_link config) @ ''/rss'' @ [CHR 0x22] @
      '' rel='' @ [CHR 0x22] @ ''self'' @ [CHR 0x22] @
      '' type='' @ [CHR 0x22] @ ''application/rss+xml'' @ [CHR 0x22] @ '' />'') = 0"
    by (simp_all add: count_scan del: count_sub.simps)
  have opt: "list_all (\<lambda>l. count_sub ''<guid'' l = 0) (opt_elem ''language'' (cfg_language config))"
    "list_all (\<lambda>l. count_sub ''<guid'' l = 0) (opt_elem ''copyright'' (cfg_copyright config))"
    "list_all (\<lambda>l. count_sub ''<guid'' l = 0) (opt_elem ''managingEditor'' (cfg_managingEditor config))"
    "list_all (\<lambda>l. count_sub ''<guid'' l = 0) (opt_elem ''webMaster'' (cfg_webMaster config))"
    "list_all (\<lambda>l. count_sub ''<guid'' l = 0) (opt_date ''pubDate'' (cfg_pubDate config))"
    "list_all (\<lambda>l. count_sub ''<guid'' l = 0) (opt_date ''lastBuildDate'' (cfg_lastBuildDate config))"
    "list_all (\<lambda>l. count_sub ''<guid'' l = 0) (opt_elem ''category'' (cfg_category config))"
    "list_all (\<lambda>l. count_sub ''<guid'' l = 0) (opt_elem ''docs'' (cfg_docs config))"
    "list_all (\<lambda>l. count_sub ''<guid'' l = 0) (opt_num ''ttl'' (cfg_ttl config))"
    by (simp_all add: opt_num_no_guid opt_elem_no_guid opt_date_no_guid)
  show ?thesis
    unfolding channel_lines_def
    by (simp only: list_all_append list.pred_inject fixed opt image_lines_no_guid simp_thms)
qed

lemma items_count:
  "list_all guid_free items \<Longrightarrow> sum_list (map (count_sub ''<guid'') (map buildItem items)) = length items"
  by (induction items) (simp_all add: buildItem_count)

lemma build_count:
  assumes "list_all guid_free items"
  shows "count_sub ''<guid'' (build config items) = length items"
proof -
  have "sum_list (map (count_sub ''<guid'') (channel_lines config)) = 0"
    by (rule sum_list_zero) (rule channel_lines_no_guid)
  moreover have "count_sub ''<guid'' ''</channel>'' = 0" "count_sub ''<guid'' ''</rss>'' = 0"
    by (simp_all add: count_scan del: count_sub.simps)
  ultimately have "sum_list (map (count_sub ''<guid'')
      (channel_lines config @ map buildItem items @ [''</channel>'', ''</rss>''])) = length items"
    using items_count [OF assms] by simp
  then show ?thesis
    unfolding build_def by (simp add: count_join)
qed

lemma line_in_join: "l \<in> set ls \<Longrightarrow> sublist l (join_lines ls)"
proof (induction ls rule: join_lines.induct)
  case 1
  then show ?case by simp
next
  case (2 x)
  then show ?case by simp
next
  case (3 x v va)
  show ?case
  proof (cases "l = x")
    case True
    then show ?thesis by (simp add: sublist_append_rightI)
  next
    case False
    with 3 have "sublist l (join_lines (v # va))" by simp
    then obtain ps ss where "join_lines (v # va) = ps @ l @ ss"
      by (auto simp: sublist_def)
    then have "join_lines (x # v # va) = (x @ CHR 0x0A # ps) @ l @ ss" by simp
    then show ?thesis unfolding sublist_def by blast
  qed
qed

lemma guid_line_in_item: "sublist (guid_line item) (buildItem item)"
  unfolding buildItem_def
  by (rule line_in_join) (simp add: buildItem_lines_def)

lemma item_in_build: "sublist (buildItem item) (build config (pre @ item # post))"
  unfolding build_def
  by (rule line_in_join) simp

lemma guid_line_in_build: "sublist (guid_line item) (build config (pre @ item # post))"
proof -
  from guid_line_in_item [of item] obtain p1 s1 where a: "buildItem item = p1 @ guid_line item @ s1"
    by (auto simp: sublist_def)
  from item_in_build [of item config pre post] obtain p2 s2
    where b: "build config (pre @ item # post) = p2 @ buildItem item @ s2"
    by (auto simp: sublist_def)
  have "build config (pre @ item # post) = (p2 @ p1) @ guid_line item @ (s1 @ s2)"
    unfolding b a by simp
  then show ?thesis unfolding sublist_def by blast
qed

subsection \<open>One guid element per item\<close>

text \<open>
  C6 (as amended). The text the builder emits for an item contains its \<open>guid\<close> element, and so
  does the document: for a guid that is absent or the empty string it is the XML-escaped
  link flagged \<open>isPermaLink="true"\<close>, for a non-empty guid the XML-escaped guid flagged
  \<open>isPermaLink="false"\<close>. It is the only \<open>guid\<close> line pushed for the item, and when the
  description does not contain the text \<open><guid\<close> the emitted item has exactly one
  occurrence of \<open><guid\<close>, a document of \<open>n\<close> such items exactly \<open>n\<close>.
\<close>

theorem guid_element:
  "guid_line item =
     (case guid item of
        None \<Rightarrow> ''<guid isPermaLink='' @ [CHR 0x22] @ ''true'' @ [CHR 0x22] @ ''>'' @ escapeXML (link item) @ ''</guid>''
      | Some g \<Rightarrow>
          if g = [] then ''<guid isPermaLink='' @ [CHR 0x22] @ ''true'' @ [CHR 0x22] @ ''>'' @ escapeXML (link item) @ ''</guid>''
          else ''<guid isPermaLink='' @ [CHR 0x22] @ ''false'' @ [CHR 0x22] @ ''>'' @ escapeXML g @ ''</guid>'') \<and>
   filter is_guid_element (buildItem_lines item) = [guid_line item] \<and>
   sublist (guid_line item) (buildItem item) \<and>
   sublist (guid_line item) (build config (pre @ item # post)) \<and>
   (guid_free item \<longrightarrow> count_sub ''<guid'' (buildItem item) = 1) \<and>
   (list_all guid_free items \<longrightarrow> count_sub ''<guid'' (build config items) = length items)"
proof -
  have a: "guid_line item =
     (case guid item of
        None \<Rightarrow> ''<guid isPermaLink='' @ [CHR 0x22] @ ''true'' @ [CHR 0x22] @ ''>'' @ escapeXML (link item) @ ''</guid>''
      | Some g \<Rightarrow>
          if g = [] then ''<guid isPermaLink='' @ [CHR 0x22] @ ''true'' @ [CHR 0x22] @ ''>'' @ escapeXML (link item) @ ''</guid>''
          else ''<guid isPermaLink='' @ [CHR 0x22] @ ''false'' @ [CHR 0x22] @ ''>'' @ escapeXML g @ ''</guid>'')"
    by (simp add: guid_line_def Let_def split: option.splits)
  have b: "filter is_guid_element (buildItem_lines item) = [guid_line item]"
    unfolding buildItem_lines_def
    by (simp add: opt_elem_not_guid opt_date_not_guid enclosure_not_guid source_not_guid
        guid_line_is_guid)
       (simp add: is_guid_element_def)
  note c = guid_line_in_item [of item]
  note d = guid_line_in_build [of item config pre post]
  have e: "guid_free item \<longrightarrow> count_sub ''<guid'' (buildItem item) = 1"
    by (simp add: buildItem_count)
  have f: "list_all guid_free items \<longrightarrow> count_sub ''<guid'' (build config items) = length items"
    by (simp add: build_count)
  from a b c d e f show ?thesis by (intro conjI)
qed

theorem guid_element_witness:
  "guid_free ((plain_item ''t2'' ''l2'' ''<p>d2</p>'') \<lparr>guid := Some ''g''\<rparr>) \<and>
   buildItem ((plain_item ''t2'' ''l2'' ''<p>d2</p>'') \<lparr>guid := Some ''g''\<rparr>) =
     ''<item>'' @ [CHR 0x0A] @ ''<title>t2</title>'' @ [CHR 0x0A] @ ''<link>l2</link>'' @ [CHR 0x0A] @
     ''<description><![CDATA[<p>d2</p>]]></description>'' @ [CHR 0x0A] @
     ''<guid isPermaLink='' @ [CHR 0x22] @ ''false'' @ [CHR 0x22] @ ''>g</guid>'' @ [CHR 0x0A] @ ''</item>'' \<and>
   count_sub ''<guid'' (buildItem ((plain_item ''t2'' ''l2'' ''<p>d2</p>'') \<lparr>guid := Some ''g''\<rparr>)) = 1 \<and>
   list_all guid_free
     [plain_item ''t'' ''l'' ''d'', (plain_item ''t2'' ''l2'' ''<p>d2</p>'') \<lparr>guid := Some ''g''\<rparr>] \<and>
   count_sub ''<guid'' (build sample_config
     [plain_item ''t'' ''l'' ''d'', (plain_item ''t2'' ''l2'' ''<p>d2</p>'') \<lparr>guid := Some ''g''\<rparr>]) = 2"
proof -
  let ?i = "(plain_item ''t2'' ''l2'' ''<p>d2</p>'') \<lparr>guid := Some ''g''\<rparr>"
  let ?is = "[plain_item ''t'' ''l'' ''d'', ?i]"
  have h1: "guid_free ?i" by code_simp
  have h2: "list_all guid_free ?is" by code_simp
  have t: "buildItem ?i =
     ''<item>'' @ [CHR 0x0A] @ ''<title>t2</title>'' @ [CHR 0x0A] @ ''<link>l2</link>'' @ [CHR 0x0A] @
     ''<description><![CDATA[<p>d2</p>]]></description>'' @ [CHR 0x0A] @
     ''<guid isPermaLink='' @ [CHR 0x22] @ ''false'' @ [CHR 0x22] @ ''>g</guid>'' @ [CHR 0x0A] @ ''</item>''"
    by code_simp
  note inst = guid_element [where item = ?i and items = ?is and config = sample_config]
  from inst h1 have c1: "count_sub ''<guid'' (buildItem ?i) = 1" by blast
  from inst h2 have "count_sub ''<guid'' (build sample_config ?is) = length ?is" by blast
  then have c2: "count_sub ''<guid'' (build sample_config ?is) = 2" by simp
  from h1 t c1 h2 c2 show ?thesis by (intro conjI)
qed

text \<open>The description is copied into the CDATA section as it is, so a description that
  contains \<open><guid\<close> adds an occurrence to the emitted text.\<close>

lemma guid_in_description_counts:
  "count_sub ''<guid'' (buildItem (plain_item ''t'' ''l'' ''<guid>x</guid>'')) = 2"
  by code_simp

text \<open>
  C6 (as stated) fails: an item with the explicit guid \<open>""\<close> does not emit
  \<open><guid isPermaLink="false"></guid>\<close>; it emits its link as a permalink.
\<close>

theorem guid_empty_counterexample:
  "guid_line ((plain_item ''t'' ''l'' ''d'') \<lparr>guid := Some []\<rparr>) =
     ''<guid isPermaLink='' @ [CHR 0x22] @ ''true'' @ [CHR 0x22] @ ''>l</guid>'' \<and>
   guid_line ((plain_item ''t'' ''l'' ''d'') \<lparr>guid := Some []\<rparr>) \<noteq>
     ''<guid isPermaLink='' @ [CHR 0x22] @ ''false'' @ [CHR 0x22] @ ''></guid>'' \<and>
   buildItem ((plain_item ''t'' ''l'' ''d'') \<lparr>guid := Some []\<rparr>) =
     ''<item>'' @ [CHR 0x0A] @ ''<title>t</title>'' @ [CHR 0x0A] @ ''<link>l</link>'' @ [CHR 0x0A] @
     ''<description><![CDATA[d]]></description>'' @ [CHR 0x0A] @
     ''<guid isPermaLink='' @ [CHR 0x22] @ ''true'' @ [CHR 0x22] @ ''>l</guid>'' @ [CHR 0x0A] @ ''</item>''"
proof -
  have a: "guid_line ((plain_item ''t'' ''l'' ''d'') \<lparr>guid := Some []\<rparr>) =
     ''<guid isPermaLink='' @ [CHR 0x22] @ ''true'' @ [CHR 0x22] @ ''>l</guid>'' \<and>
   guid_line ((plain_item ''t'' ''l'' ''d'') \<lparr>guid := Some []\<rparr>) \<noteq>
     ''<guid isPermaLink='' @ [CHR 0x22] @ ''false'' @ [CHR 0x22] @ ''></guid>''"
    by (simp add: guid_line_def plain_item_def escapeXML_def)
  have b: "buildItem ((plain_item ''t'' ''l'' ''d'') \<lparr>guid := Some []\<rparr>) =
     ''<item>'' @ [CHR 0x0A] @ ''<title>t</title>'' @ [CHR 0x0A] @ ''<link>l</link>'' @ [CHR 0x0A] @
     ''<description><![CDATA[d]]></description>'' @ [CHR 0x0A] @
     ''<guid isPermaLink='' @ [CHR 0x22] @ ''true'' @ [CHR 0x22] @ ''>l</guid>'' @ [CHR 0x0A] @ ''</item>''"
    by code_simp
  from a b show ?thesis by blast
qed

text \<open>
  C9. An item whose guid is present but empty is serialised exactly as the same item
  without a guid: the item and the whole document are the same text, and that text
  contains the \<open>guid\<close> element carrying the escaped link with \<open>isPermaLink="true"\<close>, the only
  occurrence of \<open><guid\<close> in the item when the description has none.
\<close>

theorem guid_empty_as_absent:
  "guid_line (item\<lparr>guid := Some []\<rparr>) =
     ''<guid isPermaLink='' @ [CHR 0x22] @ ''true'' @ [CHR 0x22] @ ''>'' @ escapeXML (link item) @ ''</guid>'' \<and>
   guid_line (item\<lparr>guid := Some []\<rparr>) = guid_line (item\<lparr>guid := None\<rparr>) \<and>
   buildItem (item\<lparr>guid := Some []\<rparr>) = buildItem (item\<lparr>guid := None\<rparr>) \<and>
   build config (pre @ item\<lparr>guid := Some []\<rparr> # post) = build config (pre @ item\<lparr>guid := None\<rparr> # post) \<and>
   sublist (''<guid isPermaLink='' @ [CHR 0x22] @ ''true'' @ [CHR 0x22] @ ''>'' @ escapeXML (link item) @ ''</guid>'')
     (buildItem (item\<lparr>guid := Some []\<rparr>)) \<and>
   sublist (''<guid isPermaLink='' @ [CHR 0x22] @ ''true'' @ [CHR 0x22] @ ''>'' @ escapeXML (link item) @ ''</guid>'')
     (build config (pre @ item\<lparr>guid := Some []\<rparr> # post)) \<and>
   (guid_free item \<longrightarrow> count_sub ''<guid'' (buildItem (item\<lparr>guid := Some []\<rparr>)) = 1)"
proof -
  let ?T = "''<guid isPermaLink='' @ [CHR 0x22] @ ''true'' @ [CHR 0x22] @ ''>'' @ escapeXML (link item) @ ''</guid>''"
  have g: "guid_line (item\<lparr>guid := Some []\<rparr>) = guid_line (item\<lparr>guid := None\<rparr>)"
    by (simp add: guid_line_def)
  have a: "guid_line (item\<lparr>guid := Some []\<rparr>) = ?T"
    by (simp add: guid_line_def)
  have b: "buildItem (item\<lparr>guid := Some []\<rparr>) = buildItem (item\<lparr>guid := None\<rparr>)"
    by (simp add: buildItem_def buildItem_lines_def g)
  have c: "build config (pre @ item\<lparr>guid := Some []\<rparr> # post) =
           build config (pre @ item\<lparr>guid := None\<rparr> # post)"
    using b by (simp add: build_def)
  have d: "sublist ?T (buildItem (item\<lparr>guid := Some []\<rparr>))"
    using guid_line_in_item [of "item\<lparr>guid := Some []\<rparr>"] unfolding a .
  have e: "sublist ?T (build config (pre @ item\<lparr>guid := Some []\<rparr> # post))"
    using guid_line_in_build [of "item\<lparr>guid := Some []\<rparr>" config pre post] unfolding a .
  have f: "guid_free item \<longrightarrow> count_sub ''<guid'' (buildItem (item\<lparr>guid := Some []\<rparr>)) = 1"
    using buildItem_count [of "item\<lparr>guid := Some []\<rparr>"] by (simp add: guid_free_def)
  from a g b c d e f show ?thesis by (intro conjI)
qed

theorem guid_empty_as_absent_witness:
  "guid_free (plain_item ''t'' ''l'' ''<b>d</b>'') \<and>
   count_sub ''<guid'' (buildItem ((plain_item ''t'' ''l'' ''<b>d</b>'') \<lparr>guid := Some []\<rparr>)) = 1 \<and>
   buildItem ((plain_item ''t'' ''l'' ''<b>d</b>'') \<lparr>guid := Some []\<rparr>) =
     ''<item>'' @ [CHR 0x0A] @ ''<title>t</title>'' @ [CHR 0x0A] @ ''<link>l</link>'' @ [CHR 0x0A] @
     ''<description><![CDATA[<b>d</b>]]></description>'' @ [CHR 0x0A] @
     ''<guid isPermaLink='' @ [CHR 0x22] @ ''true'' @ [CHR 0x22] @ ''>l</guid>'' @ [CHR 0x0A] @ ''</item>''"
proof -
  let ?i = "plain_item ''t'' ''l'' ''<b>d</b>''"
  have h: "guid_free ?i" by code_simp
  from guid_empty_as_absent [where item = ?i] h
  have c: "count_sub ''<guid'' (buildItem (?i\<lparr>guid := Some []\<rparr>)) = 1" by blast
  have t: "buildItem (?i\<lparr>guid := Some []\<rparr>) =
     ''<item>'' @ [CHR 0x0A] @ ''<title>t</title>'' @ [CHR 0x0A] @ ''<link>l</link>'' @ [CHR 0x0A] @
     ''<description><![CDATA[<b>d</b>]]></description>'' @ [CHR 0x0A] @
     ''<guid isPermaLink='' @ [CHR 0x22] @ ''true'' @ [CHR 0x22] @ ''>l</guid>'' @ [CHR 0x0A] @ ''</item>''"
    by code_simp
  from h c t show ?thesis by (intro conjI)
qed

end
